theory Spec2Isabelle
  imports Complex_Main "HOL-Library.AList" "HOL-Library.Log_Nat"
begin

section \<open>Data model (pert.py, class PERTDiagram)\<close>

text \<open>
  One entry of the dictionary \<open>self.tasks\<close>.  Durations and times are Python numbers, and
  the methods that compute with them are given twice.  In sections \<open>PERTDiagram\<close> the
  numbers are of any exact type (an ordered additive group: Python's \<open>int\<close> and \<open>Fraction\<close>),
  so that \<open>+\<close>, \<open>-\<close>, \<open>max\<close>, \<open>min\<close> and \<open>==\<close> are exact and raise nothing.  In section
  \<open>PERTDiagram on Python numbers\<close> they are Python's \<open>int\<close> and \<open>float\<close>, where the arithmetic
  rounds and may raise \<open>OverflowError\<close>.  On a project of \<open>int\<close>s the two agree (lemma
  \<open>analyze_of_int\<close>).
\<close>

record 'a task_info =
  duration :: 'a
  dependencies :: "string list"
  est :: 'a
  eft :: 'a
  lst :: 'a
  lft :: 'a
  float :: 'a

text \<open>
  A \<open>networkx.DiGraph\<close>: the node dictionary in insertion order and the edges in insertion
  order.  The adjacency dictionary of a node lists its successors in the order in which the
  edges were added, which is the order of the edge list filtered by source.
\<close>

record digraph =
  nodes :: "string list"
  edges :: "(string \<times> string) list"

text \<open>
  The object state.  \<open>self.tasks\<close> is a Python dictionary: an association list in insertion
  order.  Its keys are distinct on every object built through the interface (lemma
  \<open>reachable_distinct\<close>).
\<close>

record 'a PERTDiagram =
  tasks :: "(string \<times> 'a task_info) list"
  graph :: digraph
  critical_path :: "string list"
  project_duration :: 'a

datatype exn = KeyError string | NetworkXUnfeasible | RuntimeError | OverflowError

text \<open>\<open>str(e)\<close> of the exceptions above.  \<open>KeyError\<close> comes from a dictionary lookup,
  \<open>NetworkXUnfeasible\<close> and \<open>RuntimeError\<close> from the topological sort, \<open>OverflowError\<close> from
  the conversion of an \<open>int\<close> to a \<open>float\<close>.\<close>

fun exn_message :: "exn \<Rightarrow> string" where
  "exn_message (KeyError k) = [CHR 0x27] @ k @ [CHR 0x27]"
| "exn_message NetworkXUnfeasible = ''Graph contains a cycle or graph changed during iteration''"
| "exn_message RuntimeError = ''Graph changed during iteration''"
| "exn_message OverflowError = ''int too large to convert to float''"

section \<open>The part of networkx the program uses\<close>

text \<open>
  networkx is a library the program imports.  The definitions of this section follow its
  documented behaviour on a \<open>DiGraph\<close> whose nodes are strings: the insertion order of nodes
  and edges, the induced subgraph, cycle detection, and the topological sort by generations.
  The results proved below about the timings use of the topological sort only that it returns
  every node once, each after its predecessors.
\<close>

definition DiGraph :: digraph where
  "DiGraph = \<lparr>nodes = [], edges = []\<rparr>"

definition add_node :: "string \<Rightarrow> digraph \<Rightarrow> digraph" where
  "add_node v G = (if v \<in> set (nodes G) then G else G\<lparr>nodes := nodes G @ [v]\<rparr>)"

text \<open>\<open>G.add_edge(u, v)\<close> adds missing end points (first \<open>u\<close>, then \<open>v\<close>) and ignores an
  edge that is already there.\<close>

definition add_edge :: "string \<Rightarrow> string \<Rightarrow> digraph \<Rightarrow> digraph" where
  "add_edge u v G =
     (let G' = add_node v (add_node u G)
      in if (u, v) \<in> set (edges G') then G' else G'\<lparr>edges := edges G' @ [(u, v)]\<rparr>)"

text \<open>\<open>G.successors(v)\<close>, \<open>G.predecessors(v)\<close> and \<open>G.in_degree(v)\<close>.  networkx raises for
  a node that is not in the graph.  Inside \<open>analyze\<close> the graph has just been rebuilt from the
  dictionary and the program only asks for its nodes, so the model has no such branch; a
  direct call of a pass on a stale graph is not covered.  Node attributes are not modelled:
  the program never reads them.\<close>

definition successors :: "digraph \<Rightarrow> string \<Rightarrow> string list" where
  "successors G v = map snd (filter (\<lambda>e. fst e = v) (edges G))"

definition predecessors :: "digraph \<Rightarrow> string \<Rightarrow> string list" where
  "predecessors G v = map fst (filter (\<lambda>e. snd e = v) (edges G))"

definition in_degree :: "digraph \<Rightarrow> string \<Rightarrow> int" where
  "in_degree G v = int (length (predecessors G v))"

text \<open>\<open>G.subgraph(ns)\<close>: the induced subgraph, a filtered view that keeps the order of
  \<open>G\<close>.\<close>

definition subgraph :: "digraph \<Rightarrow> string list \<Rightarrow> digraph" where
  "subgraph G ns =
     \<lparr>nodes = filter (\<lambda>v. v \<in> set ns) (nodes G),
      edges = filter (\<lambda>e. fst e \<in> set ns \<and> snd e \<in> set ns) (edges G)\<rparr>"

text \<open>
  \<open>nx.find_cycle(g)\<close> returns a cycle when the graph has a directed cycle (self-loops
  included) and raises \<open>NetworkXNoCycle\<close> otherwise.  The program only uses which of the
  two happens.
\<close>

definition has_cycle :: "digraph \<Rightarrow> bool" where
  "has_cycle G = (\<exists>v \<in> set (nodes G). (v, v) \<in> (set (edges G))\<^sup>+)"

subsection \<open>\<open>nx.topological_sort\<close>: Kahn's algorithm by generations\<close>

text \<open>
  \<^verbatim>\<open>
  indegree_map = {v: d for v, d in G.in_degree() if d > 0}
  zero_indegree = [v for v, d in G.in_degree() if d == 0]
  while zero_indegree:
      this_generation = zero_indegree
      zero_indegree = []
      for node in this_generation:
          if node not in G: raise RuntimeError
          for child in G.neighbors(node):
              try: indegree_map[child] -= 1
              except KeyError: raise RuntimeError
              if indegree_map[child] == 0:
                  zero_indegree.append(child)
                  del indegree_map[child]
      yield this_generation
  if indegree_map: raise nx.NetworkXUnfeasible
  \<close>
\<close>

fun relax_children ::
  "string list \<Rightarrow> (string \<times> int) list \<Rightarrow> string list \<Rightarrow> exn + ((string \<times> int) list \<times> string list)"
where
  "relax_children [] im zs = Inr (im, zs)"
| "relax_children (c # cs) im zs =
     (case map_of im c of
        None \<Rightarrow> Inl RuntimeError
      | Some d \<Rightarrow>
          if d - 1 = 0 then relax_children cs (AList.delete c im) (zs @ [c])
          else relax_children cs (AList.update c (d - 1) im) zs)"

fun relax_generation ::
  "digraph \<Rightarrow> string list \<Rightarrow> (string \<times> int) list \<Rightarrow> string list
     \<Rightarrow> exn + ((string \<times> int) list \<times> string list)"
where
  "relax_generation G [] im zs = Inr (im, zs)"
| "relax_generation G (n # ns) im zs =
     (if n \<notin> set (nodes G) then Inl RuntimeError
      else case relax_children (successors G n) im zs of
             Inl e \<Rightarrow> Inl e
           | Inr (im', zs') \<Rightarrow> relax_generation G ns im' zs')"

text \<open>The \<open>while\<close> loop.  The result is the list of generations yielded and the exception
  raised after them, if any.\<close>

function topological_generations_loop ::
  "digraph \<Rightarrow> (string \<times> int) list \<Rightarrow> string list \<Rightarrow> string list list \<times> exn option"
where
  "topological_generations_loop G im zero =
     (if zero = [] then ([], if im \<noteq> [] then Some NetworkXUnfeasible else None)
      else case relax_generation G zero im [] of
             Inl e \<Rightarrow> ([], Some e)
           | Inr (im', next) \<Rightarrow>
               (case topological_generations_loop G im' next of
                  (gens, e) \<Rightarrow> (zero # gens, e)))"
  by pat_completeness auto

definition topological_generations :: "digraph \<Rightarrow> string list list \<times> exn option" where
  "topological_generations G =
     topological_generations_loop G
       (filter (\<lambda>(v, d). d > 0) (map (\<lambda>v. (v, in_degree G v)) (nodes G)))
       (filter (\<lambda>v. in_degree G v = 0) (nodes G))"

text \<open>\<open>nx.topological_sort(G)\<close> yields the nodes of each generation in turn; the second
  component is the exception that ends the iteration, if any.\<close>

definition topological_sort :: "digraph \<Rightarrow> string list \<times> exn option" where
  "topological_sort G = (case topological_generations G of (gens, e) \<Rightarrow> (concat gens, e))"

section \<open>PERTDiagram\<close>

text \<open>\<open>__init__\<close>\<close>

definition init :: "'a::zero PERTDiagram" where
  "init = \<lparr>tasks = [], graph = DiGraph, critical_path = [], project_duration = 0\<rparr>"

text \<open>\<open>self.tasks[task_id] = {...}\<close>: an existing key keeps its place in the dictionary and
  gets the new value, a new key goes to the end.\<close>

definition add_task ::
  "string \<Rightarrow> 'a::zero \<Rightarrow> string list option \<Rightarrow> 'a PERTDiagram \<Rightarrow> 'a PERTDiagram"
where
  "add_task task_id dur deps st =
     (let dependencies = (case deps of None \<Rightarrow> [] | Some ds \<Rightarrow> ds)
      in st\<lparr>tasks := AList.update task_id
           \<lparr>duration = dur, dependencies = dependencies,
            est = 0, eft = 0, lst = 0, lft = 0, float = 0\<rparr> (tasks st)\<rparr>)"

subsection \<open>The dependency graph\<close>

text \<open>The two loops that \<open>validate_tasks\<close> and \<open>_build_graph\<close> share: every task a node,
  then an edge from each dependency to its dependent.\<close>

definition add_task_nodes :: "(string \<times> 'a task_info) list \<Rightarrow> digraph \<Rightarrow> digraph" where
  "add_task_nodes ts G = fold (\<lambda>(task_id, task_info). add_node task_id) ts G"

definition add_dependency_edges :: "(string \<times> 'a task_info) list \<Rightarrow> digraph \<Rightarrow> digraph" where
  "add_dependency_edges ts G =
     fold (\<lambda>(task_id, task_info) G'.
             fold (\<lambda>dep. add_edge dep task_id) (dependencies task_info) G') ts G"

definition dependency_graph :: "(string \<times> 'a task_info) list \<Rightarrow> digraph" where
  "dependency_graph ts = add_dependency_edges ts (add_task_nodes ts DiGraph)"

definition build_graph :: "'a PERTDiagram \<Rightarrow> 'a PERTDiagram" where
  "build_graph st = st\<lparr>graph := dependency_graph (tasks st)\<rparr>"

subsection \<open>\<open>validate_tasks\<close>\<close>

fun missing_in :: "(string \<times> 'a task_info) list \<Rightarrow> string list \<Rightarrow> string option" where
  "missing_in ts [] = None"
| "missing_in ts (dep # deps) =
     (if dep \<notin> set (map fst ts) then Some dep else missing_in ts deps)"

text \<open>The first pair (task, dependency) whose dependency is not a key of the dictionary,
  in the order of the two nested loops.\<close>

fun first_missing ::
  "(string \<times> 'a task_info) list \<Rightarrow> (string \<times> 'a task_info) list \<Rightarrow> (string \<times> string) option"
where
  "first_missing ts [] = None"
| "first_missing ts ((task_id, task_info) # rest) =
     (case missing_in ts (dependencies task_info) of
        Some dep \<Rightarrow> Some (task_id, dep)
      | None \<Rightarrow> first_missing ts rest)"

definition missing_message :: "string \<Rightarrow> string \<Rightarrow> string" where
  "missing_message task_id dep =
     ''Task '' @ [CHR 0x27] @ task_id @ [CHR 0x27] @ '' depends on non-existent task ''
       @ [CHR 0x27] @ dep @ [CHR 0x27]"

definition cycle_message :: string where
  "cycle_message = ''Circular dependency detected in the project''"

definition validate_tasks :: "'a PERTDiagram \<Rightarrow> (bool \<times> string) \<times> 'a PERTDiagram" where
  "validate_tasks st =
     (case first_missing (tasks st) (tasks st) of
        Some (task_id, dep) \<Rightarrow> ((False, missing_message task_id dep), st)
      | None \<Rightarrow>
          if has_cycle (dependency_graph (tasks st)) then ((False, cycle_message), st)
          else ((True, []), st))"

subsection \<open>Exceptions and loops over the state\<close>

text \<open>A method body either runs to its end or stops at an exception; in both cases the
  object keeps the assignments made so far.\<close>

type_synonym 'a action = "'a PERTDiagram \<Rightarrow> exn option \<times> 'a PERTDiagram"

definition and_then :: "'a action \<Rightarrow> 'a action \<Rightarrow> 'a action" where
  "and_then f g st = (case f st of (Some e, st') \<Rightarrow> (Some e, st') | (None, st') \<Rightarrow> g st')"

fun for_each :: "(string \<Rightarrow> 'a action) \<Rightarrow> string list \<Rightarrow> 'a action" where
  "for_each body [] st = (None, st)"
| "for_each body (x # xs) st =
     (case body x st of (Some e, st') \<Rightarrow> (Some e, st') | (None, st') \<Rightarrow> for_each body xs st')"

text \<open>\<open>self.tasks[task_id][field] = value\<close>, on the dictionary entry of a key that exists.\<close>

definition update_task ::
  "string \<Rightarrow> ('a task_info \<Rightarrow> 'a task_info) \<Rightarrow> 'a PERTDiagram \<Rightarrow> 'a PERTDiagram"
where
  "update_task task_id f st =
     st\<lparr>tasks := map (\<lambda>(k, v). if k = task_id then (k, f v) else (k, v)) (tasks st)\<rparr>"

subsection \<open>\<open>calculate_earliest_times\<close>\<close>

text \<open>The inner loop: \<open>max_eft = max(max_eft, self.tasks[dep]['eft'])\<close>.\<close>

fun max_eft_loop ::
  "(string \<times> 'a::linorder task_info) list \<Rightarrow> string list \<Rightarrow> 'a \<Rightarrow> exn + 'a"
where
  "max_eft_loop ts [] max_eft = Inr max_eft"
| "max_eft_loop ts (dep # deps) max_eft =
     (case map_of ts dep of
        None \<Rightarrow> Inl (KeyError dep)
      | Some dep_info \<Rightarrow> max_eft_loop ts deps (max max_eft (eft dep_info)))"

text \<open>The body of the forward loop.  \<open>task_info\<close> is the dictionary entry itself, so the
  two assignments change \<open>self.tasks\<close>.  The list \<open>no_deps_tasks\<close> computed before the loop is
  never used.\<close>

definition earliest_step :: "string \<Rightarrow> ('a::linordered_ab_group_add) action" where
  "earliest_step task_id st =
     (case map_of (tasks st) task_id of
        None \<Rightarrow> (Some (KeyError task_id), st)
      | Some task_info \<Rightarrow>
          if dependencies task_info = [] then
            (None, update_task task_id (\<lambda>t. t\<lparr>eft := est t + duration t\<rparr>)
                     (update_task task_id (\<lambda>t. t\<lparr>est := 0\<rparr>) st))
          else
            (case max_eft_loop (tasks st) (dependencies task_info) 0 of
               Inl e \<Rightarrow> (Some e, st)
             | Inr max_eft \<Rightarrow>
                 (None, update_task task_id (\<lambda>t. t\<lparr>eft := est t + duration t\<rparr>)
                          (update_task task_id (\<lambda>t. t\<lparr>est := max_eft\<rparr>) st))))"

text \<open>\<open>if self.tasks: self.project_duration = max(task_info['eft'] for ...)\<close>: nothing is
  assigned when the dictionary is empty.\<close>

definition set_project_duration :: "('a::linorder) action" where
  "set_project_duration st =
     (case map (\<lambda>(k, v). eft v) (tasks st) of
        [] \<Rightarrow> (None, st)
      | x # xs \<Rightarrow> (None, st\<lparr>project_duration := fold max xs x\<rparr>))"

text \<open>The \<open>for\<close> loop consumes the generator: it runs the body on every node yielded and
  then meets the exception of the generator, if there is one.\<close>

definition calculate_earliest_times :: "('a::linordered_ab_group_add) action" where
  "calculate_earliest_times st =
     (case topological_sort (graph st) of
        (order, err) \<Rightarrow>
          and_then (for_each earliest_step order)
            (and_then (\<lambda>st'. (err, st')) set_project_duration) st)"

subsection \<open>\<open>calculate_latest_times\<close>\<close>

definition seed_latest_finish :: "'a PERTDiagram \<Rightarrow> 'a PERTDiagram" where
  "seed_latest_finish st =
     st\<lparr>tasks := map (\<lambda>(k, v). (k, v\<lparr>lft := project_duration st\<rparr>)) (tasks st)\<rparr>"

text \<open>The inner loop: \<open>min_lst\<close> starts at \<open>float('inf')\<close>, written \<open>None\<close>, which every
  number is below.\<close>

fun min_lst_loop ::
  "(string \<times> 'a::linorder task_info) list \<Rightarrow> string list \<Rightarrow> 'a option \<Rightarrow> exn + 'a option"
where
  "min_lst_loop ts [] min_lst = Inr min_lst"
| "min_lst_loop ts (succ # succs) min_lst =
     (case map_of ts succ of
        None \<Rightarrow> Inl (KeyError succ)
      | Some succ_info \<Rightarrow>
          min_lst_loop ts succs
            (Some (case min_lst of None \<Rightarrow> lst succ_info | Some m \<Rightarrow> min m (lst succ_info))))"

definition finish_latest :: "string \<Rightarrow> 'a::linordered_ab_group_add PERTDiagram \<Rightarrow> 'a PERTDiagram" where
  "finish_latest task_id st =
     update_task task_id (\<lambda>t. t\<lparr>float := lst t - est t\<rparr>)
       (update_task task_id (\<lambda>t. t\<lparr>lst := lft t - duration t\<rparr>) st)"

text \<open>The body of the backward loop.  The case \<open>Inr None\<close> is \<open>min_lst\<close> still at infinity
  after the inner loop, which a non-empty list of successors excludes; it is written out
  only because the case distinction must be complete.\<close>

definition latest_step :: "string \<Rightarrow> ('a::linordered_ab_group_add) action" where
  "latest_step task_id st =
     (case map_of (tasks st) task_id of
        None \<Rightarrow> (Some (KeyError task_id), st)
      | Some task_info \<Rightarrow>
          if successors (graph st) task_id \<noteq> [] then
            (case min_lst_loop (tasks st) (successors (graph st) task_id) None of
               Inl e \<Rightarrow> (Some e, st)
             | Inr None \<Rightarrow> (None, finish_latest task_id st)
             | Inr (Some min_lst) \<Rightarrow>
                 (None, finish_latest task_id (update_task task_id (\<lambda>t. t\<lparr>lft := min_lst\<rparr>) st)))
          else (None, finish_latest task_id st))"

text \<open>\<open>reversed(list(nx.topological_sort(self.graph)))\<close> builds the whole list first, so an
  exception of the generator comes before the loop.\<close>

definition calculate_latest_times :: "('a::linordered_ab_group_add) action" where
  "calculate_latest_times st =
     (case topological_sort (graph st) of
        (order, Some e) \<Rightarrow> (Some e, seed_latest_finish st)
      | (order, None) \<Rightarrow> for_each latest_step (rev order) (seed_latest_finish st))"

subsection \<open>\<open>identify_critical_path\<close>\<close>

definition critical_tasks :: "'a::zero PERTDiagram \<Rightarrow> string list" where
  "critical_tasks st = map fst (filter (\<lambda>(task_id, task_info). float task_info = 0) (tasks st))"

text \<open>The \<open>while queue\<close> loop; the path is \<open>self.critical_path\<close>.\<close>

function bfs :: "digraph \<Rightarrow> string list \<Rightarrow> string set \<Rightarrow> string list \<Rightarrow> string list" where
  "bfs G [] visited path = path"
| "bfs G (task_id # queue) visited path =
     (if task_id \<notin> visited then
        bfs G (queue @ filter (\<lambda>succ. succ \<notin> insert task_id visited) (successors G task_id))
          (insert task_id visited) (path @ [task_id])
      else bfs G queue visited path)"
  by pat_completeness auto

definition identify_critical_path :: "'a::zero PERTDiagram \<Rightarrow> 'a PERTDiagram" where
  "identify_critical_path st =
     (let st0 = st\<lparr>critical_path := []\<rparr>;
          critical_tasks = critical_tasks st0
      in if critical_tasks \<noteq> [] then
           let critical_subgraph = subgraph (graph st0) critical_tasks;
               start_tasks = filter (\<lambda>t. in_degree critical_subgraph t = 0) critical_tasks
           in if start_tasks \<noteq> [] then
                st0\<lparr>critical_path := bfs critical_subgraph start_tasks {} []\<rparr>
              else st0
         else st0)"

subsection \<open>\<open>analyze\<close>\<close>

definition analyze ::
  "'a::linordered_ab_group_add PERTDiagram \<Rightarrow> (bool \<times> string) \<times> 'a PERTDiagram"
where
  "analyze st =
     (case validate_tasks st of
        ((False, error_message), st') \<Rightarrow> ((False, error_message), st')
      | ((True, error_message), st') \<Rightarrow>
          (case and_then (\<lambda>s. (None, build_graph s))
                  (and_then calculate_earliest_times
                    (and_then calculate_latest_times
                      (\<lambda>s. (None, identify_critical_path s)))) st' of
             (None, st'') \<Rightarrow> ((True, []), st'')
           | (Some e, st'') \<Rightarrow> ((False, exn_message e), st'')))"

section \<open>Python numbers\<close>

text \<open>
  The dictionary entries hold whatever numbers \<open>add_task\<close> was given: the tests pass \<open>int\<close>,
  \<open>app.py\<close> passes \<open>float(duration_str)\<close>.  A Python \<open>float\<close> is an IEEE 754 binary64 value:
  a rational of the form \<open>n * 2^q\<close> with \<open>|n| < 2^53\<close> and \<open>-1074 \<le> q \<le> 971\<close>, an infinity
  (\<open>Infinity True\<close> is \<open>float('inf')\<close>) or a NaN.  The sign of zero is not kept: the program
  only adds, subtracts and compares, which do not tell the two zeros apart.
\<close>

datatype float64 = Fin rat | Infinity bool | NaN

text \<open>The exponent of a positive rational: the \<open>e\<close> with \<open>2^e \<le> x < 2^(e+1)\<close>.  The
  difference of the bit lengths of numerator and denominator is \<open>e\<close> or \<open>e + 1\<close>.\<close>

definition floor_log2 :: "rat \<Rightarrow> int" where
  "floor_log2 x =
     (case quotient_of x of
        (a, b) \<Rightarrow> let e = bitlen a - bitlen b in if 2 powi e \<le> x then e else e - 1)"

definition round_half_even :: "rat \<Rightarrow> int" where
  "round_half_even x =
     (let n = \<lfloor>x\<rfloor>; r = x - of_int n
      in if r < 1 / 2 then n else if 1 / 2 < r then n + 1 else if even n then n else n + 1)"

text \<open>
  Rounding to the nearest binary64 value, ties to even: the spacing of the values around
  \<open>x\<close> is \<open>2^(e - 52)\<close> for the exponent \<open>e\<close> of \<open>|x|\<close>, and \<open>2^(-1074)\<close> below \<open>2^(-1022)\<close>.  A
  result of magnitude \<open>2^1024\<close> or more is an infinity.
\<close>

definition round64 :: "rat \<Rightarrow> float64" where
  "round64 x =
     (if x = 0 then Fin 0
      else let a = \<bar>x\<bar>;
               q = 2 powi (max (floor_log2 a) (- 1022) - 52);
               n = round_half_even (a / q)
           in if 2 ^ 1024 \<le> of_int n * q then Infinity (0 < x)
              else Fin (sgn x * of_int n * q))"

fun float_add :: "float64 \<Rightarrow> float64 \<Rightarrow> float64" where
  "float_add (Fin x) (Fin y) = round64 (x + y)"
| "float_add (Fin x) (Infinity s) = Infinity s"
| "float_add (Infinity s) (Fin y) = Infinity s"
| "float_add (Infinity s) (Infinity t) = (if s = t then Infinity s else NaN)"
| "float_add NaN y = NaN"
| "float_add x NaN = NaN"

fun float_neg :: "float64 \<Rightarrow> float64" where
  "float_neg (Fin x) = Fin (- x)"
| "float_neg (Infinity s) = Infinity (\<not> s)"
| "float_neg NaN = NaN"

definition float_sub :: "float64 \<Rightarrow> float64 \<Rightarrow> float64" where
  "float_sub x y = float_add x (float_neg y)"

text \<open>Comparisons: a NaN is neither below nor equal to anything.\<close>

fun float_lt :: "float64 \<Rightarrow> float64 \<Rightarrow> bool" where
  "float_lt (Fin x) (Fin y) = (x < y)"
| "float_lt (Fin x) (Infinity s) = s"
| "float_lt (Infinity s) (Fin y) = (\<not> s)"
| "float_lt (Infinity s) (Infinity t) = (\<not> s \<and> t)"
| "float_lt NaN y = False"
| "float_lt x NaN = False"

fun float_eq :: "float64 \<Rightarrow> float64 \<Rightarrow> bool" where
  "float_eq (Fin x) (Fin y) = (x = y)"
| "float_eq (Infinity s) (Infinity t) = (s = t)"
| "float_eq x y = False"

text \<open>A number of the program: a Python \<open>int\<close> (unbounded) or a \<open>float\<close>.\<close>

datatype pynum = PyInt int | PyFloat float64

text \<open>\<open>float(n)\<close> as the arithmetic operators apply it to an \<open>int\<close> operand that meets a
  \<open>float\<close>: the nearest binary64 value, and \<open>OverflowError\<close> when that is out of range.\<close>

definition to_float :: "pynum \<Rightarrow> exn + float64" where
  "to_float a =
     (case a of
        PyFloat x \<Rightarrow> Inr x
      | PyInt n \<Rightarrow>
          (case round64 (of_int n) of
             Infinity s \<Rightarrow> Inl OverflowError
           | x \<Rightarrow> Inr x))"

text \<open>\<open>a + b\<close> and \<open>a - b\<close>: exact on two \<open>int\<close>s, otherwise both operands become \<open>float\<close>s
  and the result is rounded.\<close>

definition py_add :: "pynum \<Rightarrow> pynum \<Rightarrow> exn + pynum" where
  "py_add a b =
     (case (a, b) of
        (PyInt m, PyInt n) \<Rightarrow> Inr (PyInt (m + n))
      | _ \<Rightarrow>
          (case to_float a of
             Inl e \<Rightarrow> Inl e
           | Inr x \<Rightarrow>
               (case to_float b of
                  Inl e \<Rightarrow> Inl e
                | Inr y \<Rightarrow> Inr (PyFloat (float_add x y)))))"

definition py_sub :: "pynum \<Rightarrow> pynum \<Rightarrow> exn + pynum" where
  "py_sub a b =
     (case (a, b) of
        (PyInt m, PyInt n) \<Rightarrow> Inr (PyInt (m - n))
      | _ \<Rightarrow>
          (case to_float a of
             Inl e \<Rightarrow> Inl e
           | Inr x \<Rightarrow>
               (case to_float b of
                  Inl e \<Rightarrow> Inl e
                | Inr y \<Rightarrow> Inr (PyFloat (float_sub x y)))))"

text \<open>Python compares an \<open>int\<close> with a \<open>float\<close> by their exact values, without converting
  the \<open>int\<close>.\<close>

definition exact_value :: "pynum \<Rightarrow> float64" where
  "exact_value a = (case a of PyInt n \<Rightarrow> Fin (of_int n) | PyFloat x \<Rightarrow> x)"

definition py_lt :: "pynum \<Rightarrow> pynum \<Rightarrow> bool" where
  "py_lt a b = float_lt (exact_value a) (exact_value b)"

definition py_eq :: "pynum \<Rightarrow> pynum \<Rightarrow> bool" where
  "py_eq a b = float_eq (exact_value a) (exact_value b)"

definition py_le :: "pynum \<Rightarrow> pynum \<Rightarrow> bool" where
  "py_le a b \<longleftrightarrow> py_lt a b \<or> py_eq a b"

text \<open>\<open>max(a, b)\<close> and \<open>min(a, b)\<close> return the first argument unless the second is strictly
  beyond it.\<close>

definition py_max :: "pynum \<Rightarrow> pynum \<Rightarrow> pynum" where
  "py_max a b = (if py_lt a b then b else a)"

definition py_min :: "pynum \<Rightarrow> pynum \<Rightarrow> pynum" where
  "py_min a b = (if py_lt b a then b else a)"

section \<open>PERTDiagram on Python numbers\<close>

text \<open>
  The methods of \<open>PERTDiagram\<close> once more, line by line as above, with the numbers of Python in
  place of exact ones: \<open>+\<close> and \<open>-\<close> round and may raise, and a method that raises keeps the
  assignments made before.  \<open>validate_tasks\<close>, \<open>_build_graph\<close> and the graph operations
  do not compute with numbers and are the definitions above.
\<close>

definition init_py :: "pynum PERTDiagram" where
  "init_py = \<lparr>tasks = [], graph = DiGraph, critical_path = [], project_duration = PyInt 0\<rparr>"

definition add_task_py ::
  "string \<Rightarrow> pynum \<Rightarrow> string list option \<Rightarrow> pynum PERTDiagram \<Rightarrow> pynum PERTDiagram"
where
  "add_task_py task_id dur deps st =
     (let dependencies = (case deps of None \<Rightarrow> [] | Some ds \<Rightarrow> ds)
      in st\<lparr>tasks := AList.update task_id
           \<lparr>duration = dur, dependencies = dependencies,
            est = PyInt 0, eft = PyInt 0, lst = PyInt 0, lft = PyInt 0, float = PyInt 0\<rparr>
           (tasks st)\<rparr>)"

subsection \<open>\<open>calculate_earliest_times\<close>\<close>

fun max_eft_loop_py ::
  "(string \<times> pynum task_info) list \<Rightarrow> string list \<Rightarrow> pynum \<Rightarrow> exn + pynum"
where
  "max_eft_loop_py ts [] max_eft = Inr max_eft"
| "max_eft_loop_py ts (dep # deps) max_eft =
     (case map_of ts dep of
        None \<Rightarrow> Inl (KeyError dep)
      | Some dep_info \<Rightarrow> max_eft_loop_py ts deps (py_max max_eft (eft dep_info)))"

text \<open>The body of the forward loop.  \<open>task_info['est']\<close> is assigned before
  \<open>task_info['est'] + task_info['duration']\<close> is computed, so an exception of the sum leaves
  the new earliest start in the dictionary.\<close>

definition earliest_step_py :: "string \<Rightarrow> pynum action" where
  "earliest_step_py task_id st =
     (case map_of (tasks st) task_id of
        None \<Rightarrow> (Some (KeyError task_id), st)
      | Some task_info \<Rightarrow>
          (case (if dependencies task_info = [] then Inr (PyInt 0)
                 else max_eft_loop_py (tasks st) (dependencies task_info) (PyInt 0)) of
             Inl e \<Rightarrow> (Some e, st)
           | Inr start \<Rightarrow>
               (case py_add start (duration task_info) of
                  Inl e \<Rightarrow> (Some e, update_task task_id (\<lambda>t. t\<lparr>est := start\<rparr>) st)
                | Inr finish \<Rightarrow>
                    (None, update_task task_id (\<lambda>t. t\<lparr>eft := finish\<rparr>)
                             (update_task task_id (\<lambda>t. t\<lparr>est := start\<rparr>) st)))))"

text \<open>\<open>max\<close> of an iterable keeps the running maximum unless the next item is strictly
  above it.\<close>

definition set_project_duration_py :: "pynum action" where
  "set_project_duration_py st =
     (case map (\<lambda>(k, v). eft v) (tasks st) of
        [] \<Rightarrow> (None, st)
      | x # xs \<Rightarrow> (None, st\<lparr>project_duration := fold (\<lambda>item m. py_max m item) xs x\<rparr>))"

definition calculate_earliest_times_py :: "pynum action" where
  "calculate_earliest_times_py st =
     (case topological_sort (graph st) of
        (order, err) \<Rightarrow>
          and_then (for_each earliest_step_py order)
            (and_then (\<lambda>st'. (err, st')) set_project_duration_py) st)"

subsection \<open>\<open>calculate_latest_times\<close>\<close>

fun min_lst_loop_py ::
  "(string \<times> pynum task_info) list \<Rightarrow> string list \<Rightarrow> pynum \<Rightarrow> exn + pynum"
where
  "min_lst_loop_py ts [] min_lst = Inr min_lst"
| "min_lst_loop_py ts (succ # succs) min_lst =
     (case map_of ts succ of
        None \<Rightarrow> Inl (KeyError succ)
      | Some succ_info \<Rightarrow> min_lst_loop_py ts succs (py_min min_lst (lst succ_info)))"

text \<open>The last two assignments of the backward loop, on the entry \<open>task_info\<close> as it is after
  the assignment of \<open>lft\<close>: each difference may raise after the assignments before it.\<close>

definition finish_latest_py :: "string \<Rightarrow> pynum task_info \<Rightarrow> pynum action" where
  "finish_latest_py task_id task_info st =
     (case py_sub (lft task_info) (duration task_info) of
        Inl e \<Rightarrow> (Some e, st)
      | Inr start \<Rightarrow>
          (case py_sub start (est task_info) of
             Inl e \<Rightarrow> (Some e, update_task task_id (\<lambda>t. t\<lparr>lst := start\<rparr>) st)
           | Inr float_time \<Rightarrow>
               (None, update_task task_id (\<lambda>t. t\<lparr>float := float_time\<rparr>)
                        (update_task task_id (\<lambda>t. t\<lparr>lst := start\<rparr>) st))))"

definition latest_step_py :: "string \<Rightarrow> pynum action" where
  "latest_step_py task_id st =
     (case map_of (tasks st) task_id of
        None \<Rightarrow> (Some (KeyError task_id), st)
      | Some task_info \<Rightarrow>
          if successors (graph st) task_id \<noteq> [] then
            (case min_lst_loop_py (tasks st) (successors (graph st) task_id)
                    (PyFloat (Infinity True)) of
               Inl e \<Rightarrow> (Some e, st)
             | Inr min_lst \<Rightarrow>
                 finish_latest_py task_id (task_info\<lparr>lft := min_lst\<rparr>)
                   (update_task task_id (\<lambda>t. t\<lparr>lft := min_lst\<rparr>) st))
          else finish_latest_py task_id task_info st)"

definition calculate_latest_times_py :: "pynum action" where
  "calculate_latest_times_py st =
     (case topological_sort (graph st) of
        (order, Some e) \<Rightarrow> (Some e, seed_latest_finish st)
      | (order, None) \<Rightarrow> for_each latest_step_py (rev order) (seed_latest_finish st))"

subsection \<open>\<open>identify_critical_path\<close>\<close>

text \<open>\<open>task_info['float'] == 0\<close> compares the stored number with the \<open>int\<close> zero.\<close>

definition critical_tasks_py :: "pynum PERTDiagram \<Rightarrow> string list" where
  "critical_tasks_py st =
     map fst (filter (\<lambda>(task_id, task_info). py_eq (float task_info) (PyInt 0)) (tasks st))"

definition identify_critical_path_py :: "pynum PERTDiagram \<Rightarrow> pynum PERTDiagram" where
  "identify_critical_path_py st =
     (let st0 = st\<lparr>critical_path := []\<rparr>;
          critical_tasks = critical_tasks_py st0
      in if critical_tasks \<noteq> [] then
           let critical_subgraph = subgraph (graph st0) critical_tasks;
               start_tasks = filter (\<lambda>t. in_degree critical_subgraph t = 0) critical_tasks
           in if start_tasks \<noteq> [] then
                st0\<lparr>critical_path := bfs critical_subgraph start_tasks {} []\<rparr>
              else st0
         else st0)"

subsection \<open>\<open>analyze\<close>\<close>

definition analyze_py :: "pynum PERTDiagram \<Rightarrow> (bool \<times> string) \<times> pynum PERTDiagram" where
  "analyze_py st =
     (case validate_tasks st of
        ((False, error_message), st') \<Rightarrow> ((False, error_message), st')
      | ((True, error_message), st') \<Rightarrow>
          (case and_then (\<lambda>s. (None, build_graph s))
                  (and_then calculate_earliest_times_py
                    (and_then calculate_latest_times_py
                      (\<lambda>s. (None, identify_critical_path_py s)))) st' of
             (None, st'') \<Rightarrow> ((True, []), st'')
           | (Some e, st'') \<Rightarrow> ((False, exn_message e), st'')))"

section \<open>Projects on Python numbers used as examples\<close>

text \<open>Task A of \<open>int\<close> duration \<open>10**400\<close>, task B of \<open>float\<close> duration \<open>0.5\<close> after A.\<close>

definition overflow_project :: "pynum PERTDiagram" where
  "overflow_project =
     add_task_py ''B'' (PyFloat (round64 (1 / 2))) (Some [''A''])
       (add_task_py ''A'' (PyInt (10 ^ 400)) (Some []) init_py)"

text \<open>Task A of duration \<open>0.1\<close>, task B of duration \<open>0.4\<close> after A; a \<open>float\<close> literal is
  the rounded decimal.\<close>

definition rounding_project :: "pynum PERTDiagram" where
  "rounding_project =
     add_task_py ''B'' (PyFloat (round64 (2 / 5))) (Some [''A''])
       (add_task_py ''A'' (PyFloat (round64 (1 / 10))) (Some []) init_py)"

text \<open>Two \<open>int\<close> durations above \<open>2^53\<close> and one \<open>float\<close> duration: B depends on A1.\<close>

definition mixed_project :: "pynum PERTDiagram" where
  "mixed_project =
     add_task_py ''B'' (PyFloat (round64 (1 / 10))) (Some [''A1''])
       (add_task_py ''A2'' (PyInt (2 ^ 53 + 3)) (Some [])
         (add_task_py ''A1'' (PyInt (2 ^ 53 + 1)) (Some []) init_py))"

section \<open>Projects of integers\<close>

text \<open>A project all of whose numbers are Python \<open>int\<close>s, as an object over Python numbers.\<close>

definition of_int_task :: "int task_info \<Rightarrow> pynum task_info" where
  "of_int_task t =
     \<lparr>duration = PyInt (duration t), dependencies = dependencies t,
      est = PyInt (est t), eft = PyInt (eft t), lst = PyInt (lst t), lft = PyInt (lft t),
      float = PyInt (float t)\<rparr>"

definition of_int_project :: "int PERTDiagram \<Rightarrow> pynum PERTDiagram" where
  "of_int_project st =
     \<lparr>tasks = map (\<lambda>(k, t). (k, of_int_task t)) (tasks st), graph = graph st,
      critical_path = critical_path st, project_duration = PyInt (project_duration st)\<rparr>"

text \<open>\<open>min_lst\<close> on integers: \<open>float('inf')\<close> until the first successor has been seen.\<close>

fun running_minimum :: "int option \<Rightarrow> pynum" where
  "running_minimum None = PyFloat (Infinity True)"
| "running_minimum (Some m) = PyInt m"

section \<open>Notions used in the statements and proofs\<close>

text \<open>A graph as \<open>DiGraph\<close> holds it: no node and no edge twice, every end point a node.\<close>

definition wf_graph :: "digraph \<Rightarrow> bool" where
  "wf_graph G \<longleftrightarrow> distinct (nodes G) \<and> distinct (edges G)
     \<and> (\<forall>e \<in> set (edges G). fst e \<in> set (nodes G) \<and> snd e \<in> set (nodes G))"

text \<open>The number of edges into \<open>v\<close> that leave a node outside \<open>R\<close>: what \<open>indegree_map\<close>
  holds for \<open>v\<close> once the nodes of \<open>R\<close> have been processed.\<close>

definition cnt :: "digraph \<Rightarrow> string set \<Rightarrow> string \<Rightarrow> int" where
  "cnt G R v = int (length (filter (\<lambda>e. snd e = v \<and> fst e \<notin> R) (edges G)))"

text \<open>A list is in topological order after the set \<open>D\<close> when the neighbours \<open>nb t\<close> of each
  element \<open>t\<close> are in \<open>D\<close> or earlier in the list.  With \<open>nb\<close> the predecessors this is a
  topological order, with \<open>nb\<close> the successors a reversed one.\<close>

fun topo_from :: "(string \<Rightarrow> string list) \<Rightarrow> string set \<Rightarrow> string list \<Rightarrow> bool" where
  "topo_from nb D [] = True"
| "topo_from nb D (t # ts) = (set (nb t) \<subseteq> D \<and> topo_from nb (insert t D) ts)"

text \<open>The loop invariant of Kahn's algorithm: processed nodes \<open>R\<close>, pending nodes \<open>zs\<close> of
  in-degree 0 and the keys of \<open>indegree_map\<close> partition the nodes, and the map counts the
  edges from nodes not yet processed.\<close>

definition kahn_inv :: "digraph \<Rightarrow> string set \<Rightarrow> string list \<Rightarrow> (string \<times> int) list \<Rightarrow> bool" where
  "kahn_inv G R zs im \<longleftrightarrow>
     distinct (map fst im) \<and> distinct zs \<and>
     R \<inter> set zs = {} \<and> R \<inter> dom (map_of im) = {} \<and> set zs \<inter> dom (map_of im) = {} \<and>
     R \<union> set zs \<union> dom (map_of im) = set (nodes G) \<and>
     (\<forall>v d. map_of im v = Some d \<longrightarrow> d = cnt G R v \<and> 0 < d) \<and>
     (\<forall>v \<in> R \<union> set zs. cnt G R v = 0)"

text \<open>\<open>self.tasks.keys()\<close>\<close>

definition keys :: "'a PERTDiagram \<Rightarrow> string list" where
  "keys st = map fst (tasks st)"

text \<open>Every declared dependency is a key of the dictionary.\<close>

definition all_known :: "(string \<times> 'a task_info) list \<Rightarrow> bool" where
  "all_known ts \<longleftrightarrow> (\<forall>(k, t) \<in> set ts. set (dependencies t) \<subseteq> set (map fst ts))"

text \<open>The dependency relation: \<open>(d, k)\<close> when task \<open>k\<close> declares the dependency \<open>d\<close>.\<close>

definition dep_edges :: "(string \<times> 'a task_info) list \<Rightarrow> (string \<times> string) set" where
  "dep_edges ts = {(d, k). \<exists>t. (k, t) \<in> set ts \<and> d \<in> set (dependencies t)}"

text \<open>\<open>self.tasks[k]\<close>, used for keys of the dictionary only.\<close>

definition task_of :: "'a PERTDiagram \<Rightarrow> string \<Rightarrow> 'a task_info" where
  "task_of st k = the (map_of (tasks st) k)"

text \<open>What \<open>add_task\<close> was given and the analysis never changes: identifiers in
  dictionary order with their durations and dependencies.\<close>

definition static :: "'a PERTDiagram \<Rightarrow> (string \<times> 'a \<times> string list) list" where
  "static st = map (\<lambda>(k, t). (k, duration t, dependencies t)) (tasks st)"

text \<open>The equations of the forward pass at task \<open>k\<close>, with the initial value 0 of
  \<open>max_eft\<close> kept in the maximum.\<close>

definition early_ok :: "'a::linordered_ab_group_add PERTDiagram \<Rightarrow> string \<Rightarrow> bool" where
  "early_ok s k \<longleftrightarrow>
     est (task_of s k) =
       (if dependencies (task_of s k) = [] then 0
        else Max (insert 0 ((\<lambda>d. eft (task_of s d)) ` set (dependencies (task_of s k)))))
     \<and> eft (task_of s k) = est (task_of s k) + duration (task_of s k)"

text \<open>The invariant of the forward loop after the tasks of \<open>D\<close>.\<close>

definition fwd_inv ::
  "'a::linordered_ab_group_add PERTDiagram \<Rightarrow> string set \<Rightarrow> 'a PERTDiagram \<Rightarrow> bool" where
  "fwd_inv st0 D s \<longleftrightarrow>
     static s = static st0 \<and> graph s = graph st0 \<and>
     project_duration s = project_duration st0 \<and> critical_path s = critical_path st0 \<and>
     (\<forall>k \<in> D. set (dependencies (task_of st0 k)) \<subseteq> D \<and> early_ok s k)"

text \<open>The equations of the backward pass at task \<open>k\<close>.\<close>

definition late_ok :: "'a::linordered_ab_group_add PERTDiagram \<Rightarrow> string \<Rightarrow> bool" where
  "late_ok s k \<longleftrightarrow>
     lft (task_of s k) =
       (if successors (graph s) k = [] then project_duration s
        else Min ((\<lambda>x. lst (task_of s x)) ` set (successors (graph s) k)))
     \<and> lst (task_of s k) = lft (task_of s k) - duration (task_of s k)
     \<and> float (task_of s k) = lst (task_of s k) - est (task_of s k)"

text \<open>The invariant of the backward loop after the tasks of \<open>D\<close>: tasks not yet processed
  still hold the seeded latest finish.\<close>

definition bwd_inv ::
  "'a::linordered_ab_group_add PERTDiagram \<Rightarrow> string set \<Rightarrow> 'a PERTDiagram \<Rightarrow> bool" where
  "bwd_inv s1 D s \<longleftrightarrow>
     static s = static s1 \<and> graph s = graph s1 \<and>
     project_duration s = project_duration s1 \<and> critical_path s = critical_path s1 \<and>
     (\<forall>k \<in> set (keys s1). est (task_of s k) = est (task_of s1 k)
                          \<and> eft (task_of s k) = eft (task_of s1 k)) \<and>
     (\<forall>k \<in> set (keys s1) - D. lft (task_of s k) = project_duration s1) \<and>
     (\<forall>k \<in> D. set (successors (graph s1) k) \<subseteq> D \<and> late_ok s k)"

text \<open>The value \<open>identify_critical_path\<close> assigns to \<open>self.critical_path\<close>.\<close>

definition critical_order :: "'a::zero PERTDiagram \<Rightarrow> string list" where
  "critical_order s =
     (if critical_tasks s = [] then []
      else if filter (\<lambda>t. in_degree (subgraph (graph s) (critical_tasks s)) t = 0)
                (critical_tasks s) = [] then []
      else bfs (subgraph (graph s) (critical_tasks s))
             (filter (\<lambda>t. in_degree (subgraph (graph s) (critical_tasks s)) t = 0)
                (critical_tasks s)) {} [])"

text \<open>The state \<open>st'\<close> is an analysis of \<open>st\<close>: same tasks, the dependency graph, and the
  equations of both passes, of the project duration and of the critical path.\<close>

definition analysed :: "'a::linordered_ab_group_add PERTDiagram \<Rightarrow> 'a PERTDiagram \<Rightarrow> bool" where
  "analysed st st' \<longleftrightarrow>
     static st' = static st \<and> graph st' = dependency_graph (tasks st) \<and>
     (\<forall>k \<in> set (keys st). early_ok st' k \<and> late_ok st' k) \<and>
     project_duration st' =
       (if tasks st = [] then project_duration st
        else Max ((\<lambda>(k, t). eft t) ` set (tasks st'))) \<and>
     critical_path st' = critical_order st'"

text \<open>The computed attributes of a task, by identifier.\<close>

definition earliest_start :: "'a PERTDiagram \<Rightarrow> string \<Rightarrow> 'a" where
  "earliest_start st T = est (task_of st T)"

definition earliest_finish :: "'a PERTDiagram \<Rightarrow> string \<Rightarrow> 'a" where
  "earliest_finish st T = eft (task_of st T)"

definition latest_start :: "'a PERTDiagram \<Rightarrow> string \<Rightarrow> 'a" where
  "latest_start st T = lst (task_of st T)"

definition latest_finish :: "'a PERTDiagram \<Rightarrow> string \<Rightarrow> 'a" where
  "latest_finish st T = lft (task_of st T)"

definition slack :: "'a PERTDiagram \<Rightarrow> string \<Rightarrow> 'a" where
  "slack st T = float (task_of st T)"

definition duration_of :: "'a PERTDiagram \<Rightarrow> string \<Rightarrow> 'a" where
  "duration_of st T = duration (task_of st T)"


text \<open>The objects a caller can build: the constructor, then \<open>add_task\<close> and \<open>analyze\<close> in any
  order.\<close>

inductive reachable :: "'a::linordered_ab_group_add PERTDiagram \<Rightarrow> bool" where
  reachable_init: "reachable init"
| reachable_add_task: "reachable st \<Longrightarrow> reachable (add_task task_id dur deps st)"
| reachable_analyze: "reachable st \<Longrightarrow> reachable (snd (analyze st))"

text \<open>The chain of the specification: A (3 days), then B (4 days) after A.\<close>

definition chain_project :: "int PERTDiagram" where
  "chain_project = add_task ''B'' 4 (Some [''A'']) (add_task ''A'' 3 (Some []) init)"

text \<open>Task \<open>k\<close> declares the dependency \<open>d\<close>, which is not a key of the dictionary.\<close>

definition unknown_dependency :: "'a PERTDiagram \<Rightarrow> string \<Rightarrow> string \<Rightarrow> bool" where
  "unknown_dependency st k d \<longleftrightarrow>
     (\<exists>t. (k, t) \<in> set (tasks st) \<and> d \<in> set (dependencies t) \<and> d \<notin> set (keys st))"

text \<open>Every end point of an edge is a node.\<close>

definition endpoints_closed :: "digraph \<Rightarrow> bool" where
  "endpoints_closed G \<longleftrightarrow>
     (\<forall>e \<in> set (edges G). fst e \<in> set (nodes G) \<and> snd e \<in> set (nodes G))"

text \<open>B depends on Z, which was never added.\<close>

definition dangling_project :: "int PERTDiagram" where
  "dangling_project = add_task ''B'' 4 (Some [''Z'']) (add_task ''A'' 3 (Some []) init)"

text \<open>A depends on B and B depends on A.\<close>

definition cyclic_project :: "int PERTDiagram" where
  "cyclic_project = add_task ''B'' 4 (Some [''A'']) (add_task ''A'' 3 (Some [''B'']) init)"

text \<open>
  The critical path as the specification words it (section 4.6): the critical tasks are the
  tasks of slack 0; the subgraph keeps the edges of the dependency graph with both ends
  critical; the queue starts with the critical tasks that no edge of the subgraph enters;
  the traversal takes the head of the queue, and when the task is not yet on the path it
  appends it and enqueues those of its successors in the subgraph that are not on the path.
\<close>

definition spec_critical_tasks :: "'a::zero PERTDiagram \<Rightarrow> string list" where
  "spec_critical_tasks st = filter (\<lambda>T. slack st T = 0) (keys st)"

definition spec_induced_edges :: "'a::zero PERTDiagram \<Rightarrow> (string \<times> string) list" where
  "spec_induced_edges st =
     filter (\<lambda>(u, v). u \<in> set (spec_critical_tasks st) \<and> v \<in> set (spec_critical_tasks st))
       (edges (graph st))"

definition spec_seeds :: "'a::zero PERTDiagram \<Rightarrow> string list" where
  "spec_seeds st =
     filter (\<lambda>T. \<not> (\<exists>e \<in> set (spec_induced_edges st). snd e = T)) (spec_critical_tasks st)"

function spec_traverse ::
  "(string \<times> string) list \<Rightarrow> string list \<Rightarrow> string list \<Rightarrow> string list" where
  "spec_traverse E [] path = path"
| "spec_traverse E (T # queue) path =
     (if T \<in> set path then spec_traverse E queue path
      else spec_traverse E
             (queue @ filter (\<lambda>S. S \<notin> set (path @ [T])) (map snd (filter (\<lambda>e. fst e = T) E)))
             (path @ [T]))"
  by pat_completeness auto

definition spec_critical_path :: "'a::zero PERTDiagram \<Rightarrow> string list" where
  "spec_critical_path st = spec_traverse (spec_induced_edges st) (spec_seeds st) []"

text \<open>The project of the application's sample data.\<close>

definition sample_project :: "int PERTDiagram" where
  "sample_project =
     add_task ''G'' 3 (Some [''F'']) (add_task ''F'' 4 (Some [''D'', ''E''])
       (add_task ''E'' 6 (Some [''C'']) (add_task ''D'' 5 (Some [''B''])
         (add_task ''C'' 2 (Some [''A'']) (add_task ''B'' 4 (Some [''A''])
           (add_task ''A'' 3 (Some []) init))))))"

section \<open>Termination of the loops\<close>

lemma relax_children_length:
  "relax_children cs im zs = Inr (im', zs') \<Longrightarrow>
     length im' + length zs' \<le> length im + length zs"
proof (induction cs arbitrary: im zs)
  case Nil
  then show ?case by simp
next
  case (Cons c cs)
  from Cons.prems obtain d where d: "map_of im c = Some d"
    by (auto split: option.splits)
  have del: "length (AList.delete c im) < length im"
  proof -
    from d have "(c, d) \<in> set im" by (rule map_of_SomeD)
    then show ?thesis
      unfolding AList.delete_eq
      using length_filter_less[of "(c, d)" im "\<lambda>(k', _). c \<noteq> k'"] by simp
  qed
  have upd: "length (AList.update c (d - 1) im) = length im"
  proof -
    from d have "c \<in> set (map fst im)"
      by (metis map_of_eq_None_iff option.distinct(1) set_map)
    then have "map fst (AList.update c (d - 1) im) = map fst im"
      by (simp add: AList.update_keys)
    then have "length (map fst (AList.update c (d - 1) im)) = length (map fst im)"
      by simp
    then show ?thesis by simp
  qed
  show ?case
  proof (cases "d - 1 = 0")
    case True
    with Cons.prems d have "relax_children cs (AList.delete c im) (zs @ [c]) = Inr (im', zs')"
      by simp
    from Cons.IH[OF this] del show ?thesis by simp
  next
    case False
    with Cons.prems d have "relax_children cs (AList.update c (d - 1) im) zs = Inr (im', zs')"
      by simp
    from Cons.IH[OF this] upd show ?thesis by simp
  qed
qed

lemma relax_generation_length:
  "relax_generation G ns im zs = Inr (im', zs') \<Longrightarrow>
     length im' + length zs' \<le> length im + length zs"
proof (induction ns arbitrary: im zs)
  case Nil
  then show ?case by simp
next
  case (Cons n ns)
  from Cons.prems obtain im1 zs1 where
    s1: "relax_children (successors G n) im zs = Inr (im1, zs1)" and
    s2: "relax_generation G ns im1 zs1 = Inr (im', zs')"
    by (auto split: if_splits sum.splits)
  from relax_children_length[OF s1] Cons.IH[OF s2] show ?case by simp
qed

termination topological_generations_loop
proof (relation "measure (\<lambda>(G, im, zero). 2 * length im + (if zero = [] then 0 else 1))", goal_cases)
  case 1
  show ?case by simp
next
  case (2 G im zero x2 im' nxt)
  from relax_generation_length[of G zero im "[]" im' nxt] 2
  have le: "length im' + length nxt \<le> length im" by simp
  from 2 have x2: "x2 = (im', nxt)" and z: "zero \<noteq> []" by simp_all
  show ?case
  proof (cases "nxt = []")
    case True
    with le z show ?thesis by (simp add: x2)
  next
    case False
    then have "0 < length nxt" by simp
    with le have "length im' < length im" by linarith
    with z False show ?thesis by (simp add: x2)
  qed
qed

termination bfs
proof (relation "measures [\<lambda>(G, queue, visited, path).
                             card ((set queue \<union> snd ` set (edges G)) - visited),
                           \<lambda>(G, queue, visited, path). length queue]", goal_cases)
  case 1
  show ?case by simp
next
  case (2 G task_id queue visited path)
  let ?U = "set (task_id # queue) \<union> snd ` set (edges G)"
  let ?q' = "queue @ filter (\<lambda>succ. succ \<notin> insert task_id visited) (successors G task_id)"
  have "set (successors G task_id) \<subseteq> snd ` set (edges G)"
    by (auto simp: successors_def)
  then have sub: "(set ?q' \<union> snd ` set (edges G)) - insert task_id visited \<subseteq> ?U - visited"
    by auto
  have "task_id \<in> ?U - visited" using 2 by simp
  moreover have "task_id \<notin> (set ?q' \<union> snd ` set (edges G)) - insert task_id visited" by simp
  ultimately have "(set ?q' \<union> snd ` set (edges G)) - insert task_id visited \<subset> ?U - visited"
    using sub by blast
  moreover have "finite (?U - visited)" by simp
  ultimately have "card ((set ?q' \<union> snd ` set (edges G)) - insert task_id visited)
      < card (?U - visited)"
    by (rule psubset_card_mono[rotated])
  then show ?case by simp
next
  case (3 G task_id queue visited path)
  have "(set queue \<union> snd ` set (edges G)) - visited
      \<subseteq> (set (task_id # queue) \<union> snd ` set (edges G)) - visited" by auto
  moreover have "finite ((set (task_id # queue) \<union> snd ` set (edges G)) - visited)" by simp
  ultimately have "card ((set queue \<union> snd ` set (edges G)) - visited)
      \<le> card ((set (task_id # queue) \<union> snd ` set (edges G)) - visited)"
    by (rule card_mono[rotated])
  then show ?case by auto
qed

section \<open>Kahn's algorithm on an acyclic graph\<close>

lemma topo_from_append:
  "topo_from nb D (xs @ ys) = (topo_from nb D xs \<and> topo_from nb (D \<union> set xs) ys)"
  by (induction xs arbitrary: D) auto

lemma topo_from_all:
  "(\<forall>x \<in> set xs. set (nb x) \<subseteq> D) \<Longrightarrow> topo_from nb D xs"
proof (induction xs arbitrary: D)
  case Nil
  then show ?case by simp
next
  case (Cons a xs)
  have "topo_from nb (insert a D) xs"
    by (rule Cons.IH) (use Cons.prems in auto)
  with Cons.prems show ?case by simp
qed

lemma count_insert_aux:
  "distinct es \<Longrightarrow> n \<notin> R \<Longrightarrow>
   length (filter (\<lambda>e. snd e = v \<and> fst e \<notin> insert n R) es) + (if (n, v) \<in> set es then 1 else 0)
     = length (filter (\<lambda>e. snd e = v \<and> fst e \<notin> R) es)"
  by (induction es) (auto)

lemma cnt_insert:
  "distinct (edges G) \<Longrightarrow> n \<notin> R \<Longrightarrow>
     cnt G (insert n R) v = cnt G R v - (if (n, v) \<in> set (edges G) then 1 else 0)"
  using count_insert_aux[of "edges G" n R v] by (simp add: cnt_def split: if_splits)

lemma cnt_zero_iff:
  "cnt G R v = 0 \<longleftrightarrow> set (predecessors G v) \<subseteq> R"
  by (auto simp: cnt_def predecessors_def filter_empty_conv)

lemma cnt_nonneg: "0 \<le> cnt G R v" by (simp add: cnt_def)

lemma cnt_empty: "cnt G {} v = in_degree G v"
  by (simp add: cnt_def in_degree_def predecessors_def)

lemma relax_children_spec:
  assumes "distinct cs" "\<forall>c \<in> set cs. \<exists>d. map_of im c = Some d \<and> 1 \<le> d" "distinct (map fst im)"
  shows "\<exists>im'. relax_children cs im zs = Inr (im', zs @ filter (\<lambda>c. map_of im c = Some 1) cs)
           \<and> distinct (map fst im')
           \<and> (\<forall>v. map_of im' v =
                 (if v \<in> set cs then (if map_of im v = Some 1 then None
                                      else map_option (\<lambda>d. d - 1) (map_of im v))
                  else map_of im v))"
  using assms
proof (induction cs arbitrary: im zs)
  case Nil
  then show ?case by simp
next
  case (Cons c cs)
  from Cons.prems obtain d where d: "map_of im c = Some d" "1 \<le> d" by auto
  from Cons.prems have c: "c \<notin> set cs" and dcs: "distinct cs" by auto
  show ?case
  proof (cases "d = 1")
    case True
    let ?im1 = "AList.delete c im"
    have m1: "map_of ?im1 = (map_of im)(c := None)" by (rule AList.delete_conv')
    have p2: "\<forall>c' \<in> set cs. \<exists>d. map_of ?im1 c' = Some d \<and> 1 \<le> d"
      using Cons.prems(2) c by (auto simp: m1)
    have p3: "distinct (map fst ?im1)" using Cons.prems(3) by (rule AList.distinct_delete)
    from Cons.IH[OF dcs p2 p3, of "zs @ [c]"] obtain im' where
      r: "relax_children cs ?im1 (zs @ [c]) = Inr (im', (zs @ [c]) @ filter (\<lambda>c. map_of ?im1 c = Some 1) cs)"
      and di: "distinct (map fst im')"
      and mp: "\<forall>v. map_of im' v =
                 (if v \<in> set cs then (if map_of ?im1 v = Some 1 then None
                                      else map_option (\<lambda>d. d - 1) (map_of ?im1 v))
                  else map_of ?im1 v)" by blast
    have f: "filter (\<lambda>c. map_of ?im1 c = Some 1) cs = filter (\<lambda>c. map_of im c = Some 1) cs"
      using c by (intro filter_cong) (auto simp: m1)
    have "relax_children (c # cs) im zs = Inr (im', zs @ filter (\<lambda>c. map_of im c = Some 1) (c # cs))"
      using r d True f by simp
    moreover have "\<forall>v. map_of im' v =
                 (if v \<in> set (c # cs) then (if map_of im v = Some 1 then None
                                      else map_option (\<lambda>d. d - 1) (map_of im v))
                  else map_of im v)"
      using mp c d True by (auto simp: m1)
    ultimately show ?thesis using di by blast
  next
    case False
    let ?im1 = "AList.update c (d - 1) im"
    have m1: "map_of ?im1 = (map_of im)(c \<mapsto> d - 1)" by (rule AList.update_conv')
    have p2: "\<forall>c' \<in> set cs. \<exists>d. map_of ?im1 c' = Some d \<and> 1 \<le> d"
      using Cons.prems(2) c by (auto simp: m1)
    have p3: "distinct (map fst ?im1)" using Cons.prems(3) by (rule AList.distinct_update)
    from Cons.IH[OF dcs p2 p3, of "zs"] obtain im' where
      r: "relax_children cs ?im1 zs = Inr (im', zs @ filter (\<lambda>c. map_of ?im1 c = Some 1) cs)"
      and di: "distinct (map fst im')"
      and mp: "\<forall>v. map_of im' v =
                 (if v \<in> set cs then (if map_of ?im1 v = Some 1 then None
                                      else map_option (\<lambda>d. d - 1) (map_of ?im1 v))
                  else map_of ?im1 v)" by blast
    have f: "filter (\<lambda>c. map_of ?im1 c = Some 1) cs = filter (\<lambda>c. map_of im c = Some 1) cs"
      using c by (intro filter_cong) (auto simp: m1)
    have "relax_children (c # cs) im zs = Inr (im', zs @ filter (\<lambda>c. map_of im c = Some 1) (c # cs))"
      using r d False f by simp
    moreover have "\<forall>v. map_of im' v =
                 (if v \<in> set (c # cs) then (if map_of im v = Some 1 then None
                                      else map_option (\<lambda>d. d - 1) (map_of im v))
                  else map_of im v)"
      using mp c d False by (auto simp: m1)
    ultimately show ?thesis using di by blast
  qed
qed

lemma distinct_successors: "distinct (edges G) \<Longrightarrow> distinct (successors G n)"
  unfolding successors_def by (auto simp: distinct_map inj_on_def)

lemma set_successors: "set (successors G n) = {c. (n, c) \<in> set (edges G)}"
  unfolding successors_def by force

lemma set_predecessors: "set (predecessors G v) = {u. (u, v) \<in> set (edges G)}"
  unfolding predecessors_def by force

lemma cnt_pos: "(u, v) \<in> set (edges G) \<Longrightarrow> u \<notin> R \<Longrightarrow> 1 \<le> cnt G R v"
proof -
  assume a: "(u, v) \<in> set (edges G)" "u \<notin> R"
  have "cnt G R v \<noteq> 0"
    using a by (auto simp: cnt_zero_iff set_predecessors)
  with cnt_nonneg[of G R v] show ?thesis by linarith
qed

lemma relax_node:
  assumes wf: "wf_graph G" and inv: "kahn_inv G R (n # rest) im"
  shows "\<exists>im' new. relax_children (successors G n) im zs = Inr (im', zs @ new)
           \<and> kahn_inv G (insert n R) (rest @ new) im'"
proof -
  let ?cs = "successors G n"
  let ?m = "map_of im"
  let ?new = "filter (\<lambda>c. ?m c = Some 1) ?cs"
  let ?R = "insert n R"
  from wf have de: "distinct (edges G)" by (simp add: wf_graph_def)
  have dcs: "distinct ?cs" using de by (rule distinct_successors)
  from inv have inv': "distinct (map fst im) \<and> distinct (n # rest) \<and>
     R \<inter> set (n # rest) = {} \<and> R \<inter> dom ?m = {} \<and> set (n # rest) \<inter> dom ?m = {} \<and>
     R \<union> set (n # rest) \<union> dom ?m = set (nodes G) \<and>
     (\<forall>v d. ?m v = Some d \<longrightarrow> d = cnt G R v \<and> 0 < d) \<and>
     (\<forall>v \<in> R \<union> set (n # rest). cnt G R v = 0)"
    unfolding kahn_inv_def .
  from inv' have dim: "distinct (map fst im)" by (elim conjE)
  from inv' have "distinct (n # rest)" by (elim conjE)
  then have nrest: "n \<notin> set rest" and drest: "distinct rest" by simp_all
  from inv' have "R \<inter> set (n # rest) = {}" by (elim conjE)
  then have nR: "n \<notin> R" and Rrest: "R \<inter> set rest = {}" by auto
  from inv' have Rdom: "R \<inter> dom ?m = {}" by (elim conjE)
  from inv' have "set (n # rest) \<inter> dom ?m = {}" by (elim conjE)
  then have ndom: "n \<notin> dom ?m" and restdom: "set rest \<inter> dom ?m = {}" by auto
  from inv' have "R \<union> set (n # rest) \<union> dom ?m = set (nodes G)" by (elim conjE)
  then have cover: "insert n (R \<union> set rest \<union> dom ?m) = set (nodes G)" by auto
  from inv' have "\<forall>v d. ?m v = Some d \<longrightarrow> d = cnt G R v \<and> 0 < d" by (elim conjE)
  then have val: "\<And>v d. ?m v = Some d \<Longrightarrow> d = cnt G R v \<and> 0 < d" by blast
  from inv' have "\<forall>v \<in> R \<union> set (n # rest). cnt G R v = 0" by (elim conjE)
  then have zero: "\<And>v. v \<in> insert n (R \<union> set rest) \<Longrightarrow> cnt G R v = 0" by auto
  have child: "\<exists>d. ?m c = Some d \<and> 1 \<le> d" if "c \<in> set ?cs" for c
  proof -
    from that have e: "(n, c) \<in> set (edges G)" by (simp add: set_successors)
    from cnt_pos[OF e nR] have p: "1 \<le> cnt G R c" .
    then have "c \<notin> insert n (R \<union> set rest)" using zero[of c] by auto
    moreover from e wf have "c \<in> set (nodes G)" by (force simp: wf_graph_def)
    ultimately have "c \<in> dom ?m" using cover by blast
    then obtain d where "?m c = Some d" by blast
    with val[OF this] p show ?thesis by simp
  qed
  from relax_children_spec[OF dcs _ dim, of zs] child obtain im' where
      r: "relax_children ?cs im zs = Inr (im', zs @ ?new)" and dim': "distinct (map fst im')"
      and mp: "\<And>v. map_of im' v =
                 (if v \<in> set ?cs then (if ?m v = Some 1 then None
                                      else map_option (\<lambda>d. d - 1) (?m v))
                  else ?m v)" by blast
  have step: "cnt G ?R v = cnt G R v - (if v \<in> set ?cs then 1 else 0)" for v
    using cnt_insert[OF de nR, of v] by (simp add: set_successors)
  have new_sub: "set ?new \<subseteq> dom ?m" by auto
  have dom': "dom (map_of im') = dom ?m - set ?new"
  proof (rule set_eqI)
    fix v
    show "v \<in> dom (map_of im') \<longleftrightarrow> v \<in> dom ?m - set ?new"
      using child[of v] by (auto simp: mp domIff split: if_splits)
  qed
  have c1: "distinct (rest @ ?new)"
    using drest dcs restdom new_sub by auto
  have c2: "?R \<inter> set (rest @ ?new) = {}"
    using nR nrest Rrest Rdom ndom new_sub by auto
  have c3: "?R \<inter> dom (map_of im') = {}"
    using Rdom ndom by (auto simp: dom')
  have c4: "set (rest @ ?new) \<inter> dom (map_of im') = {}"
    using restdom by (auto simp: dom')
  have c5: "?R \<union> set (rest @ ?new) \<union> dom (map_of im') = set (nodes G)"
    using cover new_sub by (auto simp: dom')
  have c6: "d = cnt G ?R v \<and> 0 < d" if "map_of im' v = Some d" for v d
  proof (cases "v \<in> set ?cs")
    case True
    from child[OF True] obtain d0 where d0: "?m v = Some d0" "1 \<le> d0" by blast
    with that True have "d0 \<noteq> 1" "d = d0 - 1" by (auto simp: mp split: if_splits)
    with d0 val[OF d0(1)] step[of v] True show ?thesis by simp
  next
    case False
    with that have "?m v = Some d" by (simp add: mp)
    with val[OF this] step[of v] False show ?thesis by simp
  qed
  have c7: "cnt G ?R v = 0" if "v \<in> ?R \<union> set (rest @ ?new)" for v
  proof (cases "v \<in> set ?new")
    case True
    then have "?m v = Some 1" "v \<in> set ?cs" by auto
    with val[of v 1] step[of v] show ?thesis by simp
  next
    case False
    with that have "v \<in> insert n (R \<union> set rest)" by auto
    from zero[OF this] step[of v] cnt_nonneg[of G ?R v] show ?thesis
      by (simp split: if_splits)
  qed
  have c6': "\<forall>v d. map_of im' v = Some d \<longrightarrow> d = cnt G ?R v \<and> 0 < d"
    using c6 by blast
  have c7': "\<forall>v \<in> ?R \<union> set (rest @ ?new). cnt G ?R v = 0"
    using c7 by blast
  have "kahn_inv G ?R (rest @ ?new) im'"
    unfolding kahn_inv_def by (intro conjI dim' c1 c2 c3 c4 c5 c6' c7')
  with r show ?thesis by blast
qed

lemma relax_generation_inv:
  assumes wf: "wf_graph G"
  shows "kahn_inv G R (ns @ zs) im \<Longrightarrow>
     \<exists>im' zs'. relax_generation G ns im zs = Inr (im', zs') \<and> kahn_inv G (R \<union> set ns) zs' im'"
proof (induction ns arbitrary: R im zs)
  case Nil
  then show ?case by simp
next
  case (Cons n ns)
  from Cons.prems have "kahn_inv G R (n # (ns @ zs)) im" by simp
  from relax_node[OF wf this, of zs] obtain im1 new where
    r1: "relax_children (successors G n) im zs = Inr (im1, zs @ new)" and
    i1: "kahn_inv G (insert n R) ((ns @ zs) @ new) im1" by blast
  from i1 have "kahn_inv G (insert n R) (ns @ (zs @ new)) im1" by simp
  from Cons.IH[OF this] obtain im' zs' where
    r2: "relax_generation G ns im1 (zs @ new) = Inr (im', zs')" and
    i2: "kahn_inv G (insert n R \<union> set ns) zs' im'" by blast
  from Cons.prems have "n \<in> set (nodes G)" by (auto simp: kahn_inv_def)
  with r1 r2 have "relax_generation G (n # ns) im zs = Inr (im', zs')" by simp
  with i2 show ?case by simp
qed

lemma closed_set_cycle:
  assumes ne: "S \<noteq> {}" and cl: "\<forall>v \<in> S. \<exists>u \<in> S. (u, v) \<in> set es"
  shows "\<exists>v. (v, v) \<in> (set es)\<^sup>+"
proof (rule ccontr)
  assume "\<not> (\<exists>v. (v, v) \<in> (set es)\<^sup>+)"
  then have "acyclic (set es)" by (simp add: acyclic_def)
  with finite_set have "wf (set es)" by (rule finite_acyclic_wf)
  moreover from ne obtain x where "x \<in> S" by blast
  ultimately obtain z where z: "z \<in> S" "\<And>y. (y, z) \<in> set es \<Longrightarrow> y \<notin> S"
    by (rule wfE_min) blast
  from cl z(1) obtain u where "u \<in> S" "(u, z) \<in> set es" by blast
  with z(2) show False by blast
qed

lemma kahn_loop:
  "wf_graph G \<Longrightarrow> kahn_inv G (set out) zero im \<Longrightarrow> distinct out \<Longrightarrow>
     topo_from (predecessors G) {} out \<Longrightarrow>
     topological_generations_loop G im zero = (gens, err) \<Longrightarrow>
       distinct (out @ concat gens) \<and> topo_from (predecessors G) {} (out @ concat gens) \<and>
       (err = None \<longrightarrow> set (out @ concat gens) = set (nodes G)) \<and>
       (err \<noteq> None \<longrightarrow> (\<exists>v. (v, v) \<in> (set (edges G))\<^sup>+))"
proof (induction G im zero arbitrary: out gens err rule: topological_generations_loop.induct)
  case (1 G im zero)
  note wfG = "1.prems"(1)
  note inv = "1.prems"(2)
  note dout = "1.prems"(3)
  note tout = "1.prems"(4)
  note res = "1.prems"(5)
  show ?case
  proof (cases "zero = []")
    case True
    with res have g: "gens = []" and e: "err = (if im \<noteq> [] then Some NetworkXUnfeasible else None)"
      by (simp_all add: topological_generations_loop.simps[of G im zero])
    from inv True have cover: "set out \<union> dom (map_of im) = set (nodes G)"
      and val: "\<forall>v d. map_of im v = Some d \<longrightarrow> d = cnt G (set out) v \<and> 0 < d"
      by (simp_all add: kahn_inv_def)
    have a: "set out = set (nodes G)" if "err = None"
    proof -
      from that e have "im = []" by (simp split: if_splits)
      with cover show ?thesis by simp
    qed
    have b: "\<exists>v. (v, v) \<in> (set (edges G))\<^sup>+" if "err \<noteq> None"
    proof -
      from that e have "im \<noteq> []" by (simp split: if_splits)
      then obtain k d0 rest where "im = (k, d0) # rest" by (cases im) auto
      then have ne: "dom (map_of im) \<noteq> {}" by auto
      have "\<exists>u \<in> dom (map_of im). (u, v) \<in> set (edges G)" if v: "v \<in> dom (map_of im)" for v
      proof -
        from v obtain d where "map_of im v = Some d" by blast
        with val have "0 < cnt G (set out) v" by blast
        then have "\<not> set (predecessors G v) \<subseteq> set out"
          using cnt_zero_iff[of G "set out" v] by simp
        then obtain u where u: "(u, v) \<in> set (edges G)" "u \<notin> set out"
          by (auto simp: set_predecessors)
        with wfG have "u \<in> set (nodes G)" by (force simp: wf_graph_def)
        with u(2) cover have "u \<in> dom (map_of im)" by blast
        with u(1) show ?thesis by blast
      qed
      with ne show ?thesis by (intro closed_set_cycle[of "dom (map_of im)"]) blast+
    qed
    from a b g dout tout show ?thesis by simp
  next
    case False
    from inv have inv0: "kahn_inv G (set out) (zero @ []) im" by simp
    from relax_generation_inv[OF wfG inv0] obtain im' nxt where
      r: "relax_generation G zero im [] = Inr (im', nxt)" and
      inv1: "kahn_inv G (set out \<union> set zero) nxt im'" by blast
    obtain gens' err' where rec: "topological_generations_loop G im' nxt = (gens', err')"
      by (cases "topological_generations_loop G im' nxt") auto
    from res False r rec have g: "gens = zero # gens'" and e: "err = err'"
      by (simp_all add: topological_generations_loop.simps[of G im zero])
    from inv have dz: "distinct zero" and dj: "set out \<inter> set zero = {}"
      and z0: "\<forall>v \<in> set out \<union> set zero. cnt G (set out) v = 0"
      by (simp_all add: kahn_inv_def)
    have d1: "distinct (out @ zero)" using dout dz dj by auto
    have "\<forall>x \<in> set zero. set (predecessors G x) \<subseteq> {} \<union> set out"
      using z0 by (simp add: cnt_zero_iff)
    then have "topo_from (predecessors G) ({} \<union> set out) zero" by (rule topo_from_all)
    with tout have t1: "topo_from (predecessors G) {} (out @ zero)"
      by (simp add: topo_from_append)
    from inv1 have inv1': "kahn_inv G (set (out @ zero)) nxt im'" by simp
    from "1.IH"[OF False r refl wfG inv1' d1 t1 rec]
    show ?thesis by (simp add: g e)
  qed
qed

lemma map_of_filter_graph:
  "map_of (filter (\<lambda>(v, d). P d) (map (\<lambda>v. (v, f v)) xs)) v =
     (if v \<in> set xs \<and> P (f v) then Some (f v) else None)"
  by (induction xs) auto

lemma kahn_inv_init:
  assumes wf: "wf_graph G"
  shows "kahn_inv G {} (filter (\<lambda>v. in_degree G v = 0) (nodes G))
           (filter (\<lambda>(v, d). d > 0) (map (\<lambda>v. (v, in_degree G v)) (nodes G)))"
proof -
  let ?im = "filter (\<lambda>(v, d). d > 0) (map (\<lambda>v. (v, in_degree G v)) (nodes G))"
  from wf have dn: "distinct (nodes G)" by (simp add: wf_graph_def)
  have keys: "map fst ?im = filter (\<lambda>v. in_degree G v > 0) (nodes G)"
    by (induction "nodes G") (auto simp: filter_map comp_def)
  have m: "map_of ?im v = (if v \<in> set (nodes G) \<and> 0 < in_degree G v then Some (in_degree G v) else None)" for v
    by (rule map_of_filter_graph)
  have dm: "dom (map_of ?im) = {v \<in> set (nodes G). 0 < in_degree G v}"
    by (auto simp: m domIff split: if_splits)
  have nn: "0 \<le> in_degree G v" for v by (simp add: in_degree_def)
  show ?thesis
    unfolding kahn_inv_def
  proof (intro conjI)
    show "distinct (map fst ?im)" using dn by (simp add: keys)
    show "distinct (filter (\<lambda>v. in_degree G v = 0) (nodes G))" using dn by simp
    show "{} \<inter> set (filter (\<lambda>v. in_degree G v = 0) (nodes G)) = {}" by simp
    show "{} \<inter> dom (map_of ?im) = {}" by simp
    show "set (filter (\<lambda>v. in_degree G v = 0) (nodes G)) \<inter> dom (map_of ?im) = {}"
      unfolding dm by auto
    show "{} \<union> set (filter (\<lambda>v. in_degree G v = 0) (nodes G)) \<union> dom (map_of ?im) = set (nodes G)"
      unfolding dm using nn by (auto simp: less_le)
    show "\<forall>v d. map_of ?im v = Some d \<longrightarrow> d = cnt G {} v \<and> 0 < d"
      by (auto simp: m cnt_empty split: if_splits)
    show "\<forall>v \<in> {} \<union> set (filter (\<lambda>v. in_degree G v = 0) (nodes G)). cnt G {} v = 0"
      by (simp add: cnt_empty)
  qed
qed

lemma topological_sort_acyclic:
  assumes wf: "wf_graph G" and ac: "\<not> has_cycle G"
  shows "\<exists>order. topological_sort G = (order, None) \<and> distinct order
           \<and> set order = set (nodes G) \<and> topo_from (predecessors G) {} order"
proof -
  obtain gens err where l: "topological_generations G = (gens, err)"
    by (cases "topological_generations G") auto
  from kahn_loop[OF wf, of "[]" _ _ gens err] kahn_inv_init[OF wf] l
  have k: "distinct (concat gens)" "topo_from (predecessors G) {} (concat gens)"
       "err = None \<longrightarrow> set (concat gens) = set (nodes G)"
       "err \<noteq> None \<longrightarrow> (\<exists>v. (v, v) \<in> (set (edges G))\<^sup>+)"
    by (simp_all add: topological_generations_def)
  have "err = None"
  proof (rule ccontr)
    assume "err \<noteq> None"
    with k(4) obtain v where v: "(v, v) \<in> (set (edges G))\<^sup>+" by blast
    then obtain u where "(u, v) \<in> set (edges G)" by (meson tranclD2)
    with wf have "v \<in> set (nodes G)" by (force simp: wf_graph_def)
    with v ac show False by (auto simp: has_cycle_def)
  qed
  with k l show ?thesis by (simp add: topological_sort_def)
qed

section \<open>The dependency graph of a valid project\<close>

lemma add_node_simps:
  "edges (add_node v G) = edges G"
  "set (nodes (add_node v G)) = insert v (set (nodes G))"
  "distinct (nodes G) \<Longrightarrow> distinct (nodes (add_node v G))"
  "v \<in> set (nodes G) \<Longrightarrow> add_node v G = G"
  by (auto simp: add_node_def)

lemma add_edge_props:
  "set (edges (add_edge u v G)) = insert (u, v) (set (edges G))"
  "distinct (edges G) \<Longrightarrow> distinct (edges (add_edge u v G))"
  "u \<in> set (nodes G) \<Longrightarrow> v \<in> set (nodes G) \<Longrightarrow> nodes (add_edge u v G) = nodes G"
  by (auto simp: add_edge_def add_node_def Let_def)

lemma add_task_nodes_props:
  "edges (add_task_nodes ts G) = edges G"
  "distinct (nodes G @ map fst ts) \<Longrightarrow> nodes (add_task_nodes ts G) = nodes G @ map fst ts"
  unfolding add_task_nodes_def
  by (induction ts arbitrary: G) (auto simp: add_node_def)

lemma fold_add_edge_props:
  "set (edges (fold (\<lambda>dep. add_edge dep k) deps G)) = set (edges G) \<union> {(d, k) | d. d \<in> set deps}"
  "distinct (edges G) \<Longrightarrow> distinct (edges (fold (\<lambda>dep. add_edge dep k) deps G))"
  "k \<in> set (nodes G) \<Longrightarrow> set deps \<subseteq> set (nodes G) \<Longrightarrow>
     nodes (fold (\<lambda>dep. add_edge dep k) deps G) = nodes G"
  by (induction deps arbitrary: G) (auto simp: add_edge_props)

lemma add_dependency_edges_props:
  "set (edges (add_dependency_edges ts G)) = set (edges G) \<union> dep_edges ts"
  "distinct (edges G) \<Longrightarrow> distinct (edges (add_dependency_edges ts G))"
  "(\<forall>(k, t) \<in> set ts. k \<in> set (nodes G) \<and> set (dependencies t) \<subseteq> set (nodes G)) \<Longrightarrow>
     nodes (add_dependency_edges ts G) = nodes G"
  unfolding add_dependency_edges_def dep_edges_def
  by (induction ts arbitrary: G) (auto simp: fold_add_edge_props)

lemma dependency_graph_props:
  assumes "distinct (map fst ts)" "all_known ts"
  shows "nodes (dependency_graph ts) = map fst ts"
    and "set (edges (dependency_graph ts)) = dep_edges ts"
    and "distinct (edges (dependency_graph ts))"
proof -
  have n0: "nodes (add_task_nodes ts DiGraph) = map fst ts"
    using assms(1) add_task_nodes_props(2)[of DiGraph ts] by (simp add: DiGraph_def)
  have e0: "edges (add_task_nodes ts DiGraph) = []"
    by (simp add: add_task_nodes_props DiGraph_def)
  have "\<forall>(k, t) \<in> set ts. k \<in> set (nodes (add_task_nodes ts DiGraph))
          \<and> set (dependencies t) \<subseteq> set (nodes (add_task_nodes ts DiGraph))"
    using assms(2) unfolding n0 all_known_def by force
  from add_dependency_edges_props(3)[OF this] n0
  show "nodes (dependency_graph ts) = map fst ts" by (simp add: dependency_graph_def)
  show "set (edges (dependency_graph ts)) = dep_edges ts"
    by (simp add: dependency_graph_def add_dependency_edges_props e0)
  show "distinct (edges (dependency_graph ts))"
    by (simp add: dependency_graph_def add_dependency_edges_props e0)
qed

lemma wf_dependency_graph:
  assumes "distinct (map fst ts)" "all_known ts"
  shows "wf_graph (dependency_graph ts)"
proof -
  note p = dependency_graph_props[OF assms]
  have "\<forall>e \<in> set (edges (dependency_graph ts)).
          fst e \<in> set (nodes (dependency_graph ts)) \<and> snd e \<in> set (nodes (dependency_graph ts))"
    unfolding p(1) p(2) using assms(2) by (force simp: dep_edges_def all_known_def)
  with assms(1) p(3) show ?thesis by (simp add: wf_graph_def p(1))
qed

lemma dep_edges_iff:
  "(d, k) \<in> dep_edges ts \<longleftrightarrow> (\<exists>t. (k, t) \<in> set ts \<and> d \<in> set (dependencies t))"
  by (simp add: dep_edges_def)

lemma predecessors_dependency_graph:
  assumes "distinct (map fst ts)" "all_known ts" "map_of ts k = Some t"
  shows "set (predecessors (dependency_graph ts) k) = set (dependencies t)"
proof (rule set_eqI)
  fix d
  from assms(3) have kt: "(k, t) \<in> set ts" by (rule map_of_SomeD)
  have u: "t' = t" if "(k, t') \<in> set ts" for t'
    using eq_key_imp_eq_value[OF assms(1) that kt] .
  have "d \<in> set (predecessors (dependency_graph ts) k) \<longleftrightarrow> (d, k) \<in> dep_edges ts"
    by (simp add: set_predecessors dependency_graph_props(2)[OF assms(1,2)])
  also have "\<dots> \<longleftrightarrow> d \<in> set (dependencies t)"
    unfolding dep_edges_iff using kt u by blast
  finally show "d \<in> set (predecessors (dependency_graph ts) k) \<longleftrightarrow> d \<in> set (dependencies t)" .
qed

lemma successors_dependency_graph:
  assumes "distinct (map fst ts)" "all_known ts"
  shows "set (successors (dependency_graph ts) k)
           = {s. \<exists>t. map_of ts s = Some t \<and> k \<in> set (dependencies t)}"
proof (rule set_eqI)
  fix s
  have "s \<in> set (successors (dependency_graph ts) k) \<longleftrightarrow> (k, s) \<in> dep_edges ts"
    by (simp add: set_successors dependency_graph_props(2)[OF assms(1,2)])
  also have "\<dots> \<longleftrightarrow> (\<exists>t. map_of ts s = Some t \<and> k \<in> set (dependencies t))"
    unfolding dep_edges_iff using assms(1) by (simp add: map_of_eq_Some_iff)
  finally show "s \<in> set (successors (dependency_graph ts) k)
      \<longleftrightarrow> s \<in> {s. \<exists>t. map_of ts s = Some t \<and> k \<in> set (dependencies t)}" by simp
qed

lemma first_missing_None:
  "first_missing ts us = None \<longleftrightarrow> (\<forall>(k, t) \<in> set us. set (dependencies t) \<subseteq> set (map fst ts))"
proof -
  have m: "missing_in ts ds = None \<longleftrightarrow> set ds \<subseteq> set (map fst ts)" for ds
    by (induction ds) auto
  show ?thesis
    by (induction us) (auto simp: m split: option.splits)
qed

lemma all_known_iff: "all_known ts \<longleftrightarrow> first_missing ts ts = None"
  by (simp add: all_known_def first_missing_None)

section \<open>The forward pass\<close>

lemma keys_static: "map fst (static st) = keys st"
  by (simp add: static_def keys_def comp_def case_prod_unfold)

lemma static_keys: "static s = static st \<Longrightarrow> keys s = keys st"
  by (metis keys_static)

lemma map_of_static:
  "map_of (static st) k = map_option (\<lambda>t. (duration t, dependencies t)) (map_of (tasks st) k)"
  unfolding static_def by (induction "tasks st" arbitrary: st) (auto simp: map_of_map)

lemma static_task:
  assumes "static s = static st"
  shows "duration (task_of s k) = duration (task_of st k)"
    and "dependencies (task_of s k) = dependencies (task_of st k)"
proof -
  from assms have e: "map_of (static s) k = map_of (static st) k" by simp
  have ks: "k \<in> set (keys s) \<longleftrightarrow> k \<in> set (keys st)" using static_keys[OF assms] by simp
  show "duration (task_of s k) = duration (task_of st k)"
  proof (cases "map_of (tasks st) k")
    case None
    with e have "map_of (tasks s) k = None" by (simp add: map_of_static)
    with None show ?thesis by (simp add: task_of_def)
  next
    case (Some t)
    with e obtain t' where "map_of (tasks s) k = Some t'" "duration t' = duration t"
      by (auto simp: map_of_static)
    with Some show ?thesis by (simp add: task_of_def)
  qed
  show "dependencies (task_of s k) = dependencies (task_of st k)"
  proof (cases "map_of (tasks st) k")
    case None
    with e have "map_of (tasks s) k = None" by (simp add: map_of_static)
    with None show ?thesis by (simp add: task_of_def)
  next
    case (Some t)
    with e obtain t' where "map_of (tasks s) k = Some t'" "dependencies t' = dependencies t"
      by (auto simp: map_of_static)
    with Some show ?thesis by (simp add: task_of_def)
  qed
qed

lemma map_of_keys: "k \<in> set (keys st) \<Longrightarrow> map_of (tasks st) k = Some (task_of st k)"
proof -
  assume "k \<in> set (keys st)"
  then have "k \<in> fst ` set (tasks st)" by (simp add: keys_def)
  then have "map_of (tasks st) k \<noteq> None" by (simp add: map_of_eq_None_iff)
  then show ?thesis by (auto simp: task_of_def)
qed

lemma update_task_fields [simp]:
  "graph (update_task k f s) = graph s"
  "critical_path (update_task k f s) = critical_path s"
  "project_duration (update_task k f s) = project_duration s"
  by (simp_all add: update_task_def)

lemma keys_update_task [simp]: "keys (update_task k f s) = keys s"
  by (simp add: update_task_def keys_def comp_def case_prod_unfold)

lemma map_of_update_task:
  "map_of (tasks (update_task k f s)) k' =
     (if k' = k then map_option f (map_of (tasks s) k') else map_of (tasks s) k')"
proof -
  have "map_of (map (\<lambda>(a, v). if a = k then (a, f v) else (a, v)) xs) k' =
     (if k' = k then map_option f (map_of xs k') else map_of xs k')" for xs
    by (induction xs) auto
  then show ?thesis by (simp add: update_task_def)
qed

lemma task_of_update_task:
  "k' \<in> set (keys s) \<Longrightarrow>
     task_of (update_task k f s) k' = (if k' = k then f (task_of s k') else task_of s k')"
proof -
  assume "k' \<in> set (keys s)"
  from map_of_keys[OF this] have m: "map_of (tasks s) k' = Some (task_of s k')" .
  have "map_of (tasks (update_task k f s)) k' =
      (if k' = k then Some (f (task_of s k')) else Some (task_of s k'))"
    unfolding map_of_update_task m by simp
  then show ?thesis by (simp add: task_of_def[of "update_task k f s"])
qed

lemma task_of_update_task_other:
  "k' \<noteq> k \<Longrightarrow> task_of (update_task k f s) k' = task_of s k'"
  by (simp add: task_of_def map_of_update_task)

lemma static_update_task:
  "(\<And>t. duration (f t) = duration t \<and> dependencies (f t) = dependencies t) \<Longrightarrow>
     static (update_task k f s) = static s"
  by (simp add: static_def update_task_def case_prod_unfold)

lemma max_eft_loop_ok:
  "set deps \<subseteq> set (map fst ts) \<Longrightarrow>
     max_eft_loop ts deps m = Inr (Max (insert m ((\<lambda>d. eft (the (map_of ts d))) ` set deps)))"
proof (induction deps arbitrary: m)
  case Nil
  then show ?case by simp
next
  case (Cons dep deps)
  let ?I = "(\<lambda>d. eft (the (map_of ts d))) ` set deps"
  from Cons.prems have "dep \<in> fst ` set ts" by simp
  then have "map_of ts dep \<noteq> None" by (simp add: map_of_eq_None_iff)
  then obtain di where di: "map_of ts dep = Some di" by blast
  from Cons.prems have "set deps \<subseteq> set (map fst ts)" by simp
  from Cons.IH[OF this, of "max m (eft di)"] di
  have "max_eft_loop ts (dep # deps) m = Inr (Max (insert (max m (eft di)) ?I))" by simp
  moreover have "Max (insert (max m (eft di)) ?I) = Max (insert m (insert (eft di) ?I))"
  proof (cases "?I = {}")
    case True
    then show ?thesis by (simp add: max.commute)
  next
    case False
    then show ?thesis by (simp add: max.assoc)
  qed
  ultimately show ?case using di by simp
qed

lemma for_each_inv:
  assumes step: "\<And>D s t. I D s \<Longrightarrow> t \<notin> D \<Longrightarrow> t \<in> K \<Longrightarrow> set (nb t) \<subseteq> D \<Longrightarrow> D \<subseteq> K \<Longrightarrow>
                   \<exists>s'. body t s = (None, s') \<and> I (insert t D) s'"
  shows "I D s \<Longrightarrow> distinct xs \<Longrightarrow> set xs \<inter> D = {} \<Longrightarrow> set xs \<subseteq> K \<Longrightarrow> D \<subseteq> K \<Longrightarrow>
         topo_from nb D xs \<Longrightarrow> \<exists>s'. for_each body xs s = (None, s') \<and> I (D \<union> set xs) s'"
proof (induction xs arbitrary: D s)
  case Nil
  then show ?case by simp
next
  case (Cons t ts)
  from Cons.prems have t: "t \<notin> D" "t \<in> K" "set (nb t) \<subseteq> D" by auto
  from step[OF Cons.prems(1) t Cons.prems(5)] obtain s1 where
    b: "body t s = (None, s1)" and i1: "I (insert t D) s1" by blast
  have "\<exists>s'. for_each body ts s1 = (None, s') \<and> I (insert t D \<union> set ts) s'"
    by (rule Cons.IH[OF i1]) (use Cons.prems in auto)
  with b show ?case by simp
qed

lemma early_ok_cong:
  assumes "task_of s' k = task_of s k"
    and "\<And>d. d \<in> set (dependencies (task_of s k)) \<Longrightarrow> eft (task_of s' d) = eft (task_of s d)"
  shows "early_ok s' k \<longleftrightarrow> early_ok s k"
proof -
  have "(\<lambda>d. eft (task_of s' d)) ` set (dependencies (task_of s k))
      = (\<lambda>d. eft (task_of s d)) ` set (dependencies (task_of s k))"
    by (rule image_cong) (simp_all add: assms(2))
  then show ?thesis by (simp add: early_ok_def assms(1))
qed

lemma earliest_step_ok:
  fixes st0 :: "'a::linordered_ab_group_add PERTDiagram"
  assumes inv: "fwd_inv st0 D s" and tD: "t \<notin> D" and tK: "t \<in> set (keys st0)"
    and deps: "set (dependencies (task_of st0 t)) \<subseteq> D" and DK: "D \<subseteq> set (keys st0)"
  shows "\<exists>s'. earliest_step t s = (None, s') \<and> fwd_inv st0 (insert t D) s'"
proof -
  from inv have st: "static s = static st0" and g: "graph s = graph st0"
    and pd: "project_duration s = project_duration st0"
    and cp: "critical_path s = critical_path st0"
    and ok: "\<And>k. k \<in> D \<Longrightarrow> set (dependencies (task_of st0 k)) \<subseteq> D \<and> early_ok s k"
    by (simp_all add: fwd_inv_def)
  have ks: "keys s = keys st0" using st by (rule static_keys)
  let ?ti = "task_of s t"
  let ?ds = "dependencies ?ti"
  have m: "map_of (tasks s) t = Some ?ti" using tK ks by (simp add: map_of_keys)
  have dseq: "?ds = dependencies (task_of st0 t)" using st by (rule static_task)
  have dsK: "set ?ds \<subseteq> set (map fst (tasks s))"
    using deps DK ks dseq by (auto simp: keys_def)
  define E where "E = (if ?ds = [] then 0
                       else Max (insert 0 ((\<lambda>d. eft (task_of s d)) ` set ?ds)))"
  define s' where "s' = update_task t (\<lambda>x. x\<lparr>eft := est x + duration x\<rparr>)
                          (update_task t (\<lambda>x. x\<lparr>est := E\<rparr>) s)"
  have run: "earliest_step t s = (None, s')"
  proof (cases "?ds = []")
    case True
    then show ?thesis by (simp add: earliest_step_def m s'_def E_def)
  next
    case False
    have "max_eft_loop (tasks s) ?ds 0 = Inr E"
      using max_eft_loop_ok[OF dsK, of 0] False by (simp add: E_def task_of_def)
    with False show ?thesis by (simp add: earliest_step_def m s'_def)
  qed
  have tks: "t \<in> set (keys s)" using tK ks by simp
  have tt: "task_of s' t = ?ti\<lparr>est := E, eft := E + duration ?ti\<rparr>"
    using tks by (simp add: s'_def task_of_update_task)
  have other: "task_of s' k = task_of s k" if "k \<noteq> t" for k
    using that by (simp add: s'_def task_of_update_task_other)
  have st': "static s' = static st0"
    unfolding s'_def using st by (simp add: static_update_task)
  have tnd: "t \<notin> set ?ds" using deps tD dseq by auto
  have okt: "early_ok s' t"
  proof -
    have "eft (task_of s' d) = eft (task_of s d)" if "d \<in> set ?ds" for d
    proof -
      from that tnd have "d \<noteq> t" by blast
      then show ?thesis by (simp add: other)
    qed
    then have "(\<lambda>d. eft (task_of s' d)) ` set ?ds = (\<lambda>d. eft (task_of s d)) ` set ?ds"
      by (intro image_cong refl)
    then show ?thesis by (simp add: early_ok_def tt E_def)
  qed
  have okD: "early_ok s' k" if "k \<in> D" for k
  proof -
    from that tD have kt: "k \<noteq> t" by auto
    from ok[OF that] have dk: "set (dependencies (task_of st0 k)) \<subseteq> D" and e: "early_ok s k"
      by simp_all
    have dk': "dependencies (task_of s k) = dependencies (task_of st0 k)"
      using st by (rule static_task)
    have "early_ok s' k \<longleftrightarrow> early_ok s k"
    proof (rule early_ok_cong)
      show "task_of s' k = task_of s k" using kt by (rule other)
    next
      fix d assume "d \<in> set (dependencies (task_of s k))"
      with dk dk' tD have "d \<noteq> t" by auto
      then show "eft (task_of s' d) = eft (task_of s d)" by (simp add: other)
    qed
    with e show ?thesis by simp
  qed
  have "fwd_inv st0 (insert t D) s'"
    unfolding fwd_inv_def
  proof (intro conjI ballI)
    show "static s' = static st0" by (rule st')
    show "graph s' = graph st0" by (simp add: s'_def g)
    show "project_duration s' = project_duration st0" by (simp add: s'_def pd)
    show "critical_path s' = critical_path st0" by (simp add: s'_def cp)
  next
    fix k assume "k \<in> insert t D"
    then show "set (dependencies (task_of st0 k)) \<subseteq> insert t D"
      using deps ok by auto
  next
    fix k assume "k \<in> insert t D"
    then show "early_ok s' k" using okt okD by auto
  qed
  with run show ?thesis by blast
qed

lemma set_project_duration_ok:
  "set_project_duration s =
     (None, s\<lparr>project_duration :=
        (if tasks s = [] then project_duration s
         else Max ((\<lambda>(k, t). eft t) ` set (tasks s)))\<rparr>)"
proof (cases "tasks s")
  case Nil
  then show ?thesis by (simp add: set_project_duration_def)
next
  case (Cons x xs)
  have "fold max (map (\<lambda>(k, v). eft v) xs) ((\<lambda>(k, v). eft v) x)
      = Max (set (map (\<lambda>(k, v). eft v) (x # xs)))"
    unfolding list.map by (rule Max.set_eq_fold[symmetric])
  then show ?thesis using Cons by (simp add: set_project_duration_def)
qed

lemma task_of_pd_update [simp]: "task_of (s\<lparr>project_duration := d\<rparr>) k = task_of s k"
  by (simp add: task_of_def)

lemma early_ok_pd_update [simp]: "early_ok (s\<lparr>project_duration := d\<rparr>) k = early_ok s k"
  by (simp add: early_ok_def)

lemma forward_pass:
  fixes s0 :: "'a::linordered_ab_group_add PERTDiagram"
  assumes dk: "distinct (keys s0)" and ak: "all_known (tasks s0)"
    and g: "graph s0 = dependency_graph (tasks s0)" and ac: "\<not> has_cycle (graph s0)"
  shows "\<exists>s1. calculate_earliest_times s0 = (None, s1) \<and> static s1 = static s0
           \<and> graph s1 = graph s0 \<and> critical_path s1 = critical_path s0
           \<and> (\<forall>k \<in> set (keys s0). early_ok s1 k)
           \<and> project_duration s1 =
                 (if tasks s0 = [] then project_duration s0
                  else Max ((\<lambda>(k, t). eft t) ` set (tasks s1)))"
proof -
  let ?G = "graph s0"
  from dk have dk': "distinct (map fst (tasks s0))" by (simp add: keys_def)
  have wf: "wf_graph ?G" unfolding g using dk' ak by (rule wf_dependency_graph)
  have nodes: "nodes ?G = keys s0"
    unfolding g keys_def using dk' ak by (rule dependency_graph_props)
  from topological_sort_acyclic[OF wf ac] obtain order where
    ts: "topological_sort ?G = (order, None)" and dord: "distinct order"
    and sord: "set order = set (keys s0)" and topo: "topo_from (predecessors ?G) {} order"
    by (auto simp: nodes)
  have step: "\<exists>s'. earliest_step t s = (None, s') \<and> fwd_inv s0 (insert t D) s'"
    if "fwd_inv s0 D s" "t \<notin> D" "t \<in> set (keys s0)" "set (predecessors ?G t) \<subseteq> D"
       "D \<subseteq> set (keys s0)" for D s t
  proof -
    from that(3) have "map_of (tasks s0) t = Some (task_of s0 t)" by (rule map_of_keys)
    from predecessors_dependency_graph[OF dk' ak this] that(4)
    have "set (dependencies (task_of s0 t)) \<subseteq> D" by (simp add: g)
    from earliest_step_ok[OF that(1,2,3) this that(5)] show ?thesis .
  qed
  have i0: "fwd_inv s0 {} s0" by (simp add: fwd_inv_def)
  have "\<exists>s'. for_each earliest_step order s0 = (None, s') \<and> fwd_inv s0 ({} \<union> set order) s'"
    by (rule for_each_inv[where I = "fwd_inv s0" and K = "set (keys s0)"
          and nb = "predecessors ?G", OF step i0 dord _ _ _ topo])
       (simp_all add: sord)
  then obtain s' where fe: "for_each earliest_step order s0 = (None, s')"
    and i1: "fwd_inv s0 (set (keys s0)) s'" by (auto simp: sord)
  define s1 where "s1 = s'\<lparr>project_duration :=
        (if tasks s' = [] then project_duration s'
         else Max ((\<lambda>(k, t). eft t) ` set (tasks s')))\<rparr>"
  from i1 have st: "static s' = static s0" and g': "graph s' = graph s0"
    and pd: "project_duration s' = project_duration s0"
    and cp: "critical_path s' = critical_path s0"
    and ok: "\<And>k. k \<in> set (keys s0) \<Longrightarrow> early_ok s' k"
    by (simp_all add: fwd_inv_def)
  have emp: "tasks s' = [] \<longleftrightarrow> tasks s0 = []"
  proof -
    from static_keys[OF st] have "length (map fst (tasks s')) = length (map fst (tasks s0))"
      by (simp add: keys_def)
    then show ?thesis by auto
  qed
  have run: "calculate_earliest_times s0 = (None, s1)"
    by (simp add: calculate_earliest_times_def ts and_then_def fe set_project_duration_ok s1_def)
  have "static s1 = static s0" using st by (simp add: s1_def static_def)
  moreover have "graph s1 = graph s0" using g' by (simp add: s1_def)
  moreover have "critical_path s1 = critical_path s0" using cp by (simp add: s1_def)
  moreover have "\<forall>k \<in> set (keys s0). early_ok s1 k" using ok by (simp add: s1_def)
  moreover have "project_duration s1 =
                 (if tasks s0 = [] then project_duration s0
                  else Max ((\<lambda>(k, t). eft t) ` set (tasks s1)))"
    using emp pd by (simp add: s1_def)
  ultimately show ?thesis using run by blast
qed

section \<open>The backward pass\<close>

lemma topo_from_split:
  "topo_from nb D xs \<longleftrightarrow> (\<forall>p t q. xs = p @ t # q \<longrightarrow> set (nb t) \<subseteq> D \<union> set p)"
proof
  assume t: "topo_from nb D xs"
  show "\<forall>p t q. xs = p @ t # q \<longrightarrow> set (nb t) \<subseteq> D \<union> set p"
  proof (intro allI impI)
    fix p t q assume "xs = p @ t # q"
    with t have "topo_from nb D (p @ t # q)" by simp
    then show "set (nb t) \<subseteq> D \<union> set p" by (simp add: topo_from_append)
  qed
next
  show "\<forall>p t q. xs = p @ t # q \<longrightarrow> set (nb t) \<subseteq> D \<union> set p \<Longrightarrow> topo_from nb D xs"
  proof (induction xs arbitrary: D)
    case Nil
    then show ?case by simp
  next
    case (Cons x xs)
    from Cons.prems[rule_format, of "[]" x xs] have h: "set (nb x) \<subseteq> D" by simp
    have "\<forall>p t q. xs = p @ t # q \<longrightarrow> set (nb t) \<subseteq> insert x D \<union> set p"
    proof (intro allI impI)
      fix p t q assume "xs = p @ t # q"
      then have "x # xs = (x # p) @ t # q" by simp
      from Cons.prems[rule_format, OF this] show "set (nb t) \<subseteq> insert x D \<union> set p" by auto
    qed
    from Cons.IH[OF this] h show ?case by simp
  qed
qed

lemma topo_rev:
  assumes wf: "wf_graph G" and d: "distinct xs" and s: "set xs = set (nodes G)"
    and t: "topo_from (predecessors G) {} xs"
  shows "topo_from (successors G) {} (rev xs)"
  unfolding topo_from_split
proof (intro allI impI)
  fix p v q assume r: "rev xs = p @ v # q"
  then have "rev (rev xs) = rev (p @ v # q)" by simp
  then have xs: "xs = rev q @ v # rev p" by simp
  from t have pv: "set (predecessors G v) \<subseteq> set (rev q)"
    unfolding xs by (simp add: topo_from_append)
  from d have vq: "v \<notin> set q" and vp: "v \<notin> set p" and pq: "set p \<inter> set q = {}"
    unfolding xs by auto
  show "set (successors G v) \<subseteq> {} \<union> set p"
  proof
    fix c assume "c \<in> set (successors G v)"
    then have e: "(v, c) \<in> set (edges G)" by (simp add: set_successors)
    with wf have "c \<in> set (nodes G)" by (force simp: wf_graph_def)
    with s have "c \<in> set xs" by simp
    then have "c \<in> set q \<or> c = v \<or> c \<in> set p" unfolding xs by auto
    moreover have False if "c = v"
    proof -
      from e that have "v \<in> set (predecessors G v)" by (simp add: set_predecessors)
      with pv vq show False by auto
    qed
    moreover have False if "c \<in> set q"
    proof -
      from that have "c \<in> set (rev q)" by simp
      then obtain a b where ab: "rev q = a @ c # b" by (auto dest: split_list)
      have xs2: "xs = a @ c # (b @ v # rev p)" unfolding xs ab by simp
      from t have "set (predecessors G c) \<subseteq> set a"
        unfolding xs2 by (simp add: topo_from_append)
      moreover from e have "v \<in> set (predecessors G c)" by (simp add: set_predecessors)
      ultimately have "v \<in> set a" by blast
      with d show False unfolding xs2 by auto
    qed
    ultimately show "c \<in> {} \<union> set p" by blast
  qed
qed

lemma min_lst_loop_Some:
  "set xs \<subseteq> set (map fst ts) \<Longrightarrow>
     min_lst_loop ts xs (Some m) = Inr (Some (Min (insert m ((\<lambda>x. lst (the (map_of ts x))) ` set xs))))"
proof (induction xs arbitrary: m)
  case Nil
  then show ?case by simp
next
  case (Cons x xs)
  let ?I = "(\<lambda>x. lst (the (map_of ts x))) ` set xs"
  from Cons.prems have "x \<in> fst ` set ts" by simp
  then have "map_of ts x \<noteq> None" by (simp add: map_of_eq_None_iff)
  then obtain xi where xi: "map_of ts x = Some xi" by blast
  from Cons.prems have "set xs \<subseteq> set (map fst ts)" by simp
  from Cons.IH[OF this, of "min m (lst xi)"] xi
  have "min_lst_loop ts (x # xs) (Some m) = Inr (Some (Min (insert (min m (lst xi)) ?I)))" by simp
  moreover have "Min (insert (min m (lst xi)) ?I) = Min (insert m (insert (lst xi) ?I))"
  proof (cases "?I = {}")
    case True
    then show ?thesis by (simp add: min.commute)
  next
    case False
    then show ?thesis by (simp add: min.assoc)
  qed
  ultimately show ?case using xi by simp
qed

lemma min_lst_loop_None:
  assumes "set xs \<subseteq> set (map fst ts)" "xs \<noteq> []"
  shows "min_lst_loop ts xs None = Inr (Some (Min ((\<lambda>x. lst (the (map_of ts x))) ` set xs)))"
proof -
  from assms(2) obtain x ys where xs: "xs = x # ys" by (cases xs) auto
  from assms(1) xs have "x \<in> fst ` set ts" by simp
  then have "map_of ts x \<noteq> None" by (simp add: map_of_eq_None_iff)
  then obtain xi where xi: "map_of ts x = Some xi" by blast
  from assms(1) xs have "set ys \<subseteq> set (map fst ts)" by simp
  from min_lst_loop_Some[OF this, of "lst xi"] xi show ?thesis by (simp add: xs)
qed

lemma late_ok_cong:
  assumes "task_of s' k = task_of s k" "graph s' = graph s"
    "project_duration s' = project_duration s"
    and "\<And>x. x \<in> set (successors (graph s) k) \<Longrightarrow> lst (task_of s' x) = lst (task_of s x)"
  shows "late_ok s' k \<longleftrightarrow> late_ok s k"
proof -
  have "(\<lambda>x. lst (task_of s' x)) ` set (successors (graph s) k)
      = (\<lambda>x. lst (task_of s x)) ` set (successors (graph s) k)"
    using assms(4) by (intro image_cong refl)
  then show ?thesis by (simp add: late_ok_def assms(1,2,3))
qed

lemma seed_latest_finish_fields [simp]:
  "graph (seed_latest_finish s) = graph s"
  "critical_path (seed_latest_finish s) = critical_path s"
  "project_duration (seed_latest_finish s) = project_duration s"
  "keys (seed_latest_finish s) = keys s"
  "static (seed_latest_finish s) = static s"
  by (simp_all add: seed_latest_finish_def keys_def static_def comp_def case_prod_unfold)

lemma task_of_seed:
  "k \<in> set (keys s) \<Longrightarrow>
     task_of (seed_latest_finish s) k = (task_of s k)\<lparr>lft := project_duration s\<rparr>"
proof -
  assume "k \<in> set (keys s)"
  from map_of_keys[OF this] have m: "map_of (tasks s) k = Some (task_of s k)" .
  have "map_of (tasks (seed_latest_finish s)) k
      = map_option (\<lambda>v. v\<lparr>lft := project_duration s\<rparr>) (map_of (tasks s) k)"
    by (simp add: seed_latest_finish_def map_of_map)
  then show ?thesis unfolding m by (simp add: task_of_def[of "seed_latest_finish s"])
qed

lemma bwd_inv_seed: "bwd_inv s1 {} (seed_latest_finish s1)"
  by (simp add: bwd_inv_def task_of_seed)

lemma update_task_twice:
  "update_task t f (update_task t g s) = update_task t (\<lambda>x. f (g x)) s"
  by (simp add: update_task_def comp_def case_prod_unfold if_distrib cong: if_cong)

lemma finish_latest_eq:
  "finish_latest t s =
     update_task t (\<lambda>x. x\<lparr>lst := lft x - duration x, float := lft x - duration x - est x\<rparr>) s"
  by (simp add: finish_latest_def update_task_twice)

lemma latest_step_ok:
  fixes s1 :: "'a::linordered_ab_group_add PERTDiagram"
  assumes inv: "bwd_inv s1 D s" and tD: "t \<notin> D" and tK: "t \<in> set (keys s1)"
    and succs: "set (successors (graph s1) t) \<subseteq> D" and DK: "D \<subseteq> set (keys s1)"
  shows "\<exists>s'. latest_step t s = (None, s') \<and> bwd_inv s1 (insert t D) s'"
proof -
  from inv have st: "static s = static s1" and g: "graph s = graph s1"
    and pd: "project_duration s = project_duration s1"
    and cp: "critical_path s = critical_path s1"
    and ee: "\<And>k. k \<in> set (keys s1) \<Longrightarrow> est (task_of s k) = est (task_of s1 k)
                          \<and> eft (task_of s k) = eft (task_of s1 k)"
    and seed: "\<And>k. k \<in> set (keys s1) \<Longrightarrow> k \<notin> D \<Longrightarrow> lft (task_of s k) = project_duration s1"
    and ok: "\<And>k. k \<in> D \<Longrightarrow> set (successors (graph s1) k) \<subseteq> D \<and> late_ok s k"
    by (simp_all add: bwd_inv_def)
  have ks: "keys s = keys s1" using st by (rule static_keys)
  let ?ti = "task_of s t"
  let ?S = "successors (graph s) t"
  have tks: "t \<in> set (keys s)" using tK ks by simp
  have m: "map_of (tasks s) t = Some ?ti" using tks by (rule map_of_keys)
  have SK: "set ?S \<subseteq> set (map fst (tasks s))"
    using succs DK ks g by (auto simp: keys_def)
  define L where "L = (if ?S = [] then project_duration s
                       else Min ((\<lambda>x. lst (task_of s x)) ` set ?S))"
  have lt: "lft ?ti = project_duration s" using seed[OF tK tD] pd by simp
  have "\<exists>f. latest_step t s = (None, update_task t f s)
          \<and> f ?ti = ?ti\<lparr>lft := L, lst := L - duration ?ti, float := L - duration ?ti - est ?ti\<rparr>
          \<and> (\<forall>x. duration (f x) = duration x \<and> dependencies (f x) = dependencies x)"
  proof (cases "?S = []")
    case True
    let ?f = "\<lambda>x::'a task_info. x\<lparr>lst := lft x - duration x, float := lft x - duration x - est x\<rparr>"
    have "latest_step t s = (None, update_task t ?f s)"
      using True by (simp add: latest_step_def m finish_latest_eq)
    moreover have "?f ?ti = ?ti\<lparr>lft := L, lst := L - duration ?ti, float := L - duration ?ti - est ?ti\<rparr>"
      using True lt by (cases ?ti) (simp add: L_def)
    ultimately show ?thesis by (intro exI[of _ ?f]) simp
  next
    case False
    let ?f = "\<lambda>x::'a task_info. x\<lparr>lft := L, lst := L - duration x, float := L - duration x - est x\<rparr>"
    have "min_lst_loop (tasks s) ?S None = Inr (Some L)"
      using min_lst_loop_None[OF SK False] False by (simp add: L_def task_of_def)
    with False have "latest_step t s = (None, update_task t ?f s)"
      by (simp add: latest_step_def m finish_latest_eq update_task_twice)
    then show ?thesis by (intro exI[of _ ?f]) simp
  qed
  then obtain f where run: "latest_step t s = (None, update_task t f s)"
    and ft: "f ?ti = ?ti\<lparr>lft := L, lst := L - duration ?ti, float := L - duration ?ti - est ?ti\<rparr>"
    and fs: "\<And>x. duration (f x) = duration x \<and> dependencies (f x) = dependencies x"
    by blast
  define s' where "s' = update_task t f s"
  have tt: "task_of s' t = ?ti\<lparr>lft := L, lst := L - duration ?ti, float := L - duration ?ti - est ?ti\<rparr>"
    using tks ft by (simp add: s'_def task_of_update_task)
  have other: "task_of s' k = task_of s k" if "k \<noteq> t" for k
    using that by (simp add: s'_def task_of_update_task_other)
  have st': "static s' = static s1"
    unfolding s'_def using st fs by (simp add: static_update_task)
  have g': "graph s' = graph s" and pd': "project_duration s' = project_duration s"
    and cp': "critical_path s' = critical_path s" by (simp_all add: s'_def)
  have tnS: "t \<notin> set ?S" using succs tD g by auto
  have okt: "late_ok s' t"
  proof -
    have "lst (task_of s' x) = lst (task_of s x)" if "x \<in> set ?S" for x
    proof -
      from that tnS have "x \<noteq> t" by blast
      then show ?thesis by (simp add: other)
    qed
    then have "(\<lambda>x. lst (task_of s' x)) ` set ?S = (\<lambda>x. lst (task_of s x)) ` set ?S"
      by (intro image_cong refl)
    then show ?thesis by (simp add: late_ok_def tt g' pd' L_def)
  qed
  have okD: "late_ok s' k" if "k \<in> D" for k
  proof -
    from that tD have kt: "k \<noteq> t" by auto
    from ok[OF that] have sk: "set (successors (graph s1) k) \<subseteq> D" and e: "late_ok s k"
      by simp_all
    have "late_ok s' k \<longleftrightarrow> late_ok s k"
    proof (rule late_ok_cong)
      show "task_of s' k = task_of s k" using kt by (rule other)
      show "graph s' = graph s" by (rule g')
      show "project_duration s' = project_duration s" by (rule pd')
    next
      fix x assume "x \<in> set (successors (graph s) k)"
      with sk g tD have "x \<noteq> t" by auto
      then show "lst (task_of s' x) = lst (task_of s x)" by (simp add: other)
    qed
    with e show ?thesis by simp
  qed
  have "bwd_inv s1 (insert t D) s'"
    unfolding bwd_inv_def
  proof (intro conjI ballI)
    show "static s' = static s1" by (rule st')
    show "graph s' = graph s1" by (simp add: g' g)
    show "project_duration s' = project_duration s1" by (simp add: pd' pd)
    show "critical_path s' = critical_path s1" by (simp add: cp' cp)
  next
    fix k assume k: "k \<in> set (keys s1)"
    show "est (task_of s' k) = est (task_of s1 k)"
      using ee[OF k] by (cases "k = t") (simp_all add: tt other)
    show "eft (task_of s' k) = eft (task_of s1 k)"
      using ee[OF k] by (cases "k = t") (simp_all add: tt other)
  next
    fix k assume "k \<in> set (keys s1) - insert t D"
    then have "k \<in> set (keys s1)" "k \<notin> D" "k \<noteq> t" by auto
    with seed[of k] show "lft (task_of s' k) = project_duration s1" by (simp add: other)
  next
    fix k assume "k \<in> insert t D"
    then show "set (successors (graph s1) k) \<subseteq> insert t D"
      using succs ok by auto
  next
    fix k assume "k \<in> insert t D"
    then show "late_ok s' k" using okt okD by auto
  qed
  with run show ?thesis unfolding s'_def by blast
qed

lemma backward_pass:
  fixes s1 :: "'a::linordered_ab_group_add PERTDiagram"
  assumes dk: "distinct (keys s1)" and ak: "all_known (tasks s1)"
    and g: "graph s1 = dependency_graph (tasks s1)" and ac: "\<not> has_cycle (graph s1)"
  shows "\<exists>s2. calculate_latest_times s1 = (None, s2) \<and> static s2 = static s1
           \<and> graph s2 = graph s1 \<and> critical_path s2 = critical_path s1
           \<and> project_duration s2 = project_duration s1
           \<and> (\<forall>k \<in> set (keys s1). est (task_of s2 k) = est (task_of s1 k)
                                  \<and> eft (task_of s2 k) = eft (task_of s1 k)
                                  \<and> late_ok s2 k)"
proof -
  let ?G = "graph s1"
  from dk have dk': "distinct (map fst (tasks s1))" by (simp add: keys_def)
  have wf: "wf_graph ?G" unfolding g using dk' ak by (rule wf_dependency_graph)
  have nodes: "nodes ?G = keys s1"
    unfolding g keys_def using dk' ak by (rule dependency_graph_props)
  from topological_sort_acyclic[OF wf ac] obtain order where
    ts: "topological_sort ?G = (order, None)" and dord: "distinct order"
    and sord: "set order = set (nodes ?G)" and topo: "topo_from (predecessors ?G) {} order"
    by auto
  have trev: "topo_from (successors ?G) {} (rev order)"
    using wf dord sord topo by (rule topo_rev)
  have step: "\<exists>s'. latest_step t s = (None, s') \<and> bwd_inv s1 (insert t D) s'"
    if "bwd_inv s1 D s" "t \<notin> D" "t \<in> set (keys s1)" "set (successors ?G t) \<subseteq> D"
       "D \<subseteq> set (keys s1)" for D s t
    using that by (rule latest_step_ok)
  have "\<exists>s'. for_each latest_step (rev order) (seed_latest_finish s1) = (None, s')
          \<and> bwd_inv s1 ({} \<union> set (rev order)) s'"
    by (rule for_each_inv[where I = "bwd_inv s1" and K = "set (keys s1)"
          and nb = "successors ?G", OF step bwd_inv_seed _ _ _ _ trev])
       (simp_all add: sord nodes dord)
  then obtain s2 where fe: "for_each latest_step (rev order) (seed_latest_finish s1) = (None, s2)"
    and i2: "bwd_inv s1 (set (keys s1)) s2" by (auto simp: sord nodes)
  have run: "calculate_latest_times s1 = (None, s2)"
    by (simp add: calculate_latest_times_def ts fe)
  from i2 run show ?thesis unfolding bwd_inv_def by blast
qed

lemma dependency_graph_static:
  "dependency_graph ts =
     fold (\<lambda>(k, d, deps) G. fold (\<lambda>dep. add_edge dep k) deps G)
          (map (\<lambda>(k, t). (k, duration t, dependencies t)) ts)
       (fold (\<lambda>(k, d, deps). add_node k) (map (\<lambda>(k, t). (k, duration t, dependencies t)) ts)
          DiGraph)"
  by (simp add: dependency_graph_def add_dependency_edges_def add_task_nodes_def fold_map
      comp_def case_prod_unfold)

lemma static_dependency_graph:
  "static s = static s' \<Longrightarrow> dependency_graph (tasks s) = dependency_graph (tasks s')"
  unfolding dependency_graph_static static_def by simp

lemma all_known_static_aux:
  "all_known ts \<longleftrightarrow>
     (\<forall>(k, d, deps) \<in> set (map (\<lambda>(k, t). (k, duration t, dependencies t)) ts).
        set deps \<subseteq> set (map fst (map (\<lambda>(k, t). (k, duration t, dependencies t)) ts)))"
  by (auto simp: all_known_def comp_def case_prod_unfold)

lemma static_all_known:
  "static s = static s' \<Longrightarrow> all_known (tasks s) = all_known (tasks s')"
  unfolding all_known_static_aux static_def by simp

section \<open>Validation and the whole analysis\<close>

lemma critical_tasks_cp [simp]: "critical_tasks (s\<lparr>critical_path := c\<rparr>) = critical_tasks s"
  by (simp add: critical_tasks_def)

lemma identify_critical_path_eq:
  "identify_critical_path s = s\<lparr>critical_path := critical_order s\<rparr>"
  by (simp add: identify_critical_path_def critical_order_def Let_def)

lemma validate_tasks_state: "snd (validate_tasks st) = st"
  by (simp add: validate_tasks_def split: option.splits prod.splits)

lemma validate_tasks_ok:
  "all_known (tasks st) \<Longrightarrow> \<not> has_cycle (dependency_graph (tasks st)) \<Longrightarrow>
     validate_tasks st = ((True, []), st)"
  by (simp add: validate_tasks_def all_known_iff)

lemma validate_tasks_fail:
  "\<not> (all_known (tasks st) \<and> \<not> has_cycle (dependency_graph (tasks st))) \<Longrightarrow>
     \<exists>msg. validate_tasks st = ((False, msg), st)"
  by (auto simp: validate_tasks_def all_known_iff split: option.splits)

lemma analyze_invalid:
  assumes "\<not> (all_known (tasks st) \<and> \<not> has_cycle (dependency_graph (tasks st)))"
  shows "\<exists>msg. analyze st = ((False, msg), st) \<and> validate_tasks st = ((False, msg), st)"
proof -
  from validate_tasks_fail[OF assms] obtain msg where "validate_tasks st = ((False, msg), st)"
    by blast
  then show ?thesis by (simp add: analyze_def)
qed

lemma task_of_cp_update [simp]: "task_of (s\<lparr>critical_path := c\<rparr>) k = task_of s k"
  by (simp add: task_of_def)

lemma task_of_graph_update [simp]: "task_of (s\<lparr>graph := c\<rparr>) k = task_of s k"
  by (simp add: task_of_def)

lemma early_ok_transfer:
  assumes "task_of s' k = task_of s k"
    "\<forall>d \<in> set (dependencies (task_of s k)). eft (task_of s' d) = eft (task_of s d)"
  shows "early_ok s' k \<longleftrightarrow> early_ok s k"
  using assms by (intro early_ok_cong) auto

lemma critical_order_cp [simp]: "critical_order (s\<lparr>critical_path := c\<rparr>) = critical_order s"
  by (simp add: critical_order_def)

lemma early_ok_fields:
  assumes "est (task_of s' k) = est (task_of s k)" "eft (task_of s' k) = eft (task_of s k)"
    "duration (task_of s' k) = duration (task_of s k)"
    "dependencies (task_of s' k) = dependencies (task_of s k)"
    "\<And>d. d \<in> set (dependencies (task_of s k)) \<Longrightarrow> eft (task_of s' d) = eft (task_of s d)"
  shows "early_ok s' k \<longleftrightarrow> early_ok s k"
proof -
  have "(\<lambda>d. eft (task_of s' d)) ` set (dependencies (task_of s k))
      = (\<lambda>d. eft (task_of s d)) ` set (dependencies (task_of s k))"
    using assms(5) by (intro image_cong refl)
  then show ?thesis by (simp add: early_ok_def assms(1-4))
qed

lemma alist_eq_map:
  "distinct (map fst xs) \<Longrightarrow> map (\<lambda>k. (k, the (map_of xs k))) (map fst xs) = xs"
proof (induction xs)
  case Nil
  then show ?case by simp
next
  case (Cons x xs)
  obtain k v where x: "x = (k, v)" by (cases x)
  from Cons.prems x have kn: "k \<notin> set (map fst xs)" and d: "distinct (map fst xs)" by auto
  have "map (\<lambda>k'. (k', the (map_of (x # xs) k'))) (map fst xs)
      = map (\<lambda>k'. (k', the (map_of xs k'))) (map fst xs)"
    by (rule map_cong) (use kn x in auto)
  with Cons.IH[OF d] x show ?case by simp
qed

lemma tasks_eq_map: "distinct (keys s) \<Longrightarrow> tasks s = map (\<lambda>k. (k, task_of s k)) (keys s)"
  using alist_eq_map[of "tasks s"] by (simp add: keys_def task_of_def[abs_def])

lemma eft_image:
  "distinct (keys s) \<Longrightarrow>
     (\<lambda>(k, t). eft t) ` set (tasks s) = (\<lambda>k. eft (task_of s k)) ` set (keys s)"
proof -
  assume "distinct (keys s)"
  from tasks_eq_map[OF this]
  have "set (tasks s) = (\<lambda>k. (k, task_of s k)) ` set (keys s)"
    by (metis set_map)
  then show ?thesis by (simp add: image_image)
qed

lemma all_known_deps:
  assumes "all_known (tasks s)" "k \<in> set (keys s)"
  shows "set (dependencies (task_of s k)) \<subseteq> set (keys s)"
proof -
  from map_of_keys[OF assms(2)] have "(k, task_of s k) \<in> set (tasks s)" by (rule map_of_SomeD)
  with assms(1) show ?thesis unfolding all_known_def keys_def by blast
qed

lemma analyze_valid:
  fixes st :: "'a::linordered_ab_group_add PERTDiagram"
  assumes dk: "distinct (keys st)" and ak: "all_known (tasks st)"
    and ac: "\<not> has_cycle (dependency_graph (tasks st))"
  shows "\<exists>st'. analyze st = ((True, []), st') \<and> analysed st st'"
proof -
  define s0 where "s0 = build_graph st"
  have t0: "tasks s0 = tasks st" and g0: "graph s0 = dependency_graph (tasks st)"
    and pd0: "project_duration s0 = project_duration st"
    by (simp_all add: s0_def build_graph_def)
  have st0: "static s0 = static st" by (simp add: static_def t0)
  have k0: "keys s0 = keys st" by (simp add: keys_def t0)
  from forward_pass[of s0] dk ak ac obtain s1 where
    r1: "calculate_earliest_times s0 = (None, s1)" and st1: "static s1 = static s0"
    and g1: "graph s1 = graph s0"
    and e1: "\<And>k. k \<in> set (keys s0) \<Longrightarrow> early_ok s1 k"
    and pd1: "project_duration s1 =
                 (if tasks s0 = [] then project_duration s0
                  else Max ((\<lambda>(k, t). eft t) ` set (tasks s1)))"
    unfolding k0 t0 g0 by blast
  have k1: "keys s1 = keys st" using static_keys[OF st1] k0 by simp
  have ak1: "all_known (tasks s1)" using static_all_known[OF st1] ak t0 by simp
  have gg1: "graph s1 = dependency_graph (tasks s1)"
    using static_dependency_graph[OF st1] g1 g0 t0 by simp
  have ac1: "\<not> has_cycle (graph s1)" using ac g1 g0 by simp
  from backward_pass[of s1] dk ak1 gg1 ac1 obtain s2 where
    r2: "calculate_latest_times s1 = (None, s2)" and st2: "static s2 = static s1"
    and g2: "graph s2 = graph s1" and pd2: "project_duration s2 = project_duration s1"
    and f2: "\<And>k. k \<in> set (keys s1) \<Longrightarrow> est (task_of s2 k) = est (task_of s1 k)
                                  \<and> eft (task_of s2 k) = eft (task_of s1 k)
                                  \<and> late_ok s2 k"
    unfolding k1 by blast
  define st' where "st' = identify_critical_path s2"
  have st'eq: "st' = s2\<lparr>critical_path := critical_order s2\<rparr>"
    by (simp add: st'_def identify_critical_path_eq)
  have run: "analyze st = ((True, []), st')"
    using validate_tasks_ok[OF ak ac]
    by (simp add: analyze_def and_then_def s0_def[symmetric] r1 r2 st'_def)
  have k2: "keys s2 = keys st" using static_keys[OF st2] k1 by simp
  have a1: "static st' = static st"
    using st2 st1 st0 by (simp add: st'eq static_def)
  have a2: "graph st' = dependency_graph (tasks st)"
    using g2 g1 g0 by (simp add: st'eq)
  have early: "early_ok s2 k" if k: "k \<in> set (keys st)" for k
  proof -
    have "early_ok s2 k \<longleftrightarrow> early_ok s1 k"
    proof (rule early_ok_fields)
      show "est (task_of s2 k) = est (task_of s1 k)" using f2[of k] k k1 by simp
      show "eft (task_of s2 k) = eft (task_of s1 k)" using f2[of k] k k1 by simp
      show "duration (task_of s2 k) = duration (task_of s1 k)" using st2 by (rule static_task)
      show "dependencies (task_of s2 k) = dependencies (task_of s1 k)"
        using st2 by (rule static_task)
    next
      fix d assume "d \<in> set (dependencies (task_of s1 k))"
      with all_known_deps[OF ak1, of k] k k1 have "d \<in> set (keys s1)" by auto
      with f2[of d] show "eft (task_of s2 d) = eft (task_of s1 d)" by simp
    qed
    with e1[of k] k k0 show ?thesis by simp
  qed
  have a3: "\<forall>k \<in> set (keys st). early_ok st' k \<and> late_ok st' k"
  proof
    fix k assume k: "k \<in> set (keys st)"
    have "early_ok st' k \<longleftrightarrow> early_ok s2 k" by (simp add: st'eq early_ok_def)
    moreover have "late_ok st' k \<longleftrightarrow> late_ok s2 k" by (simp add: st'eq late_ok_def)
    ultimately show "early_ok st' k \<and> late_ok st' k" using early[OF k] f2[of k] k k1 by simp
  qed
  have img: "(\<lambda>(k, t). eft t) ` set (tasks s2) = (\<lambda>(k, t). eft t) ` set (tasks s1)"
  proof -
    have "(\<lambda>k. eft (task_of s2 k)) ` set (keys st) = (\<lambda>k. eft (task_of s1 k)) ` set (keys st)"
      by (rule image_cong) (use f2 k1 in auto)
    then show ?thesis using dk by (simp add: eft_image k1 k2)
  qed
  have a4: "project_duration st' =
       (if tasks st = [] then project_duration st
        else Max ((\<lambda>(k, t). eft t) ` set (tasks st')))"
    using pd2 pd1 pd0 t0 img by (simp add: st'eq)
  have a5: "critical_path st' = critical_order st'" by (simp add: st'eq)
  from a1 a2 a3 a4 a5 have "analysed st st'" unfolding analysed_def by blast
  with run show ?thesis by blast
qed

section \<open>Objects built through the interface\<close>

lemma analyze_cases:
  fixes st :: "'a::linordered_ab_group_add PERTDiagram"
  assumes dk: "distinct (keys st)"
  obtains (valid) st' where "all_known (tasks st)" "\<not> has_cycle (dependency_graph (tasks st))"
      "analyze st = ((True, []), st')" "analysed st st'"
  | (invalid) msg where "\<not> (all_known (tasks st) \<and> \<not> has_cycle (dependency_graph (tasks st)))"
      "analyze st = ((False, msg), st)" "validate_tasks st = ((False, msg), st)"
proof (cases "all_known (tasks st) \<and> \<not> has_cycle (dependency_graph (tasks st))")
  case True
  with analyze_valid[OF dk] obtain st' where "analyze st = ((True, []), st')" "analysed st st'"
    by blast
  with True valid show ?thesis by blast
next
  case False
  with analyze_invalid[OF False] invalid show ?thesis by blast
qed

lemma static_empty: "static s = static st \<Longrightarrow> tasks s = [] \<longleftrightarrow> tasks st = []"
proof -
  assume "static s = static st"
  then have "length (static s) = length (static st)" by simp
  then have "length (tasks s) = length (tasks st)" by (simp add: static_def)
  then show ?thesis by (metis length_0_conv)
qed

lemma reachable_inv:
  "reachable st \<Longrightarrow> distinct (keys st) \<and> (tasks st = [] \<longrightarrow> project_duration st = 0)"
proof (induction rule: reachable.induct)
  case reachable_init
  then show ?case by (simp add: init_def keys_def)
next
  case (reachable_add_task st task_id dur deps)
  then show ?case
    by (simp add: add_task_def keys_def AList.distinct_update)
next
  case (reachable_analyze st)
  then have dk: "distinct (keys st)" and pd: "tasks st = [] \<longrightarrow> project_duration st = 0"
    by simp_all
  from dk show ?case
  proof (cases rule: analyze_cases)
    case (valid st')
    from valid(4) have st: "static st' = static st"
      and p: "project_duration st' =
         (if tasks st = [] then project_duration st
          else Max ((\<lambda>(k, t). eft t) ` set (tasks st')))"
      by (simp_all add: analysed_def)
    from static_keys[OF st] dk have "distinct (keys st')" by simp
    moreover have "tasks st' = [] \<longrightarrow> project_duration st' = 0"
      using static_empty[OF st] p pd by simp
    ultimately show ?thesis using valid(3) by simp
  next
    case (invalid msg)
    with dk pd show ?thesis by simp
  qed
qed

lemma reachable_distinct: "reachable st \<Longrightarrow> distinct (keys st)"
  using reachable_inv by blast

lemma analyze_success:
  fixes st :: "'a::linordered_ab_group_add PERTDiagram"
  assumes "reachable st" "analyze st = ((True, msg), st')"
  shows "analysed st st'" "all_known (tasks st)" "\<not> has_cycle (dependency_graph (tasks st))"
    "distinct (keys st)" "msg = []"
proof -
  from assms(1) have dk: "distinct (keys st)" by (rule reachable_distinct)
  from dk have "analysed st st' \<and> all_known (tasks st)
      \<and> \<not> has_cycle (dependency_graph (tasks st)) \<and> msg = []"
  proof (cases rule: analyze_cases)
    case (valid s)
    with assms(2) show ?thesis by simp
  next
    case (invalid m)
    with assms(2) show ?thesis by simp
  qed
  with dk show "analysed st st'" "all_known (tasks st)"
    "\<not> has_cycle (dependency_graph (tasks st))" "distinct (keys st)" "msg = []"
    by simp_all
qed





section \<open>Latest times\<close>



section \<open>Validation and failure\<close>

lemma endpoints_closed_add_node: "endpoints_closed G \<Longrightarrow> endpoints_closed (add_node v G)"
  by (auto simp: endpoints_closed_def add_node_def)

lemma endpoints_closed_add_edge: "endpoints_closed G \<Longrightarrow> endpoints_closed (add_edge u v G)"
  by (auto simp: endpoints_closed_def add_edge_def add_node_def Let_def)

lemma endpoints_closed_fold_edge:
  "endpoints_closed G \<Longrightarrow> endpoints_closed (fold (\<lambda>dep. add_edge dep k) deps G)"
  by (induction deps arbitrary: G) (simp_all add: endpoints_closed_add_edge)

lemma endpoints_closed_edges:
  "endpoints_closed G \<Longrightarrow> endpoints_closed (add_dependency_edges ts G)"
  unfolding add_dependency_edges_def
  by (induction ts arbitrary: G) (simp_all add: endpoints_closed_fold_edge case_prod_unfold)

lemma endpoints_closed_nodes:
  "endpoints_closed G \<Longrightarrow> endpoints_closed (add_task_nodes ts G)"
  unfolding add_task_nodes_def
  by (induction ts arbitrary: G) (simp_all add: endpoints_closed_add_node case_prod_unfold)

lemma endpoints_closed_dependency_graph: "endpoints_closed (dependency_graph ts)"
  unfolding dependency_graph_def
  by (intro endpoints_closed_edges endpoints_closed_nodes)
     (simp add: endpoints_closed_def DiGraph_def)

lemma edges_dependency_graph: "set (edges (dependency_graph ts)) = dep_edges ts"
  by (simp add: dependency_graph_def add_dependency_edges_props(1) add_task_nodes_props(1)
      DiGraph_def)

lemma has_cycle_dependency_graph:
  "has_cycle (dependency_graph ts) \<longleftrightarrow> (\<exists>T. (T, T) \<in> (dep_edges ts)\<^sup>+)"
proof
  assume "has_cycle (dependency_graph ts)"
  then show "\<exists>T. (T, T) \<in> (dep_edges ts)\<^sup>+"
    by (auto simp: has_cycle_def edges_dependency_graph)
next
  assume "\<exists>T. (T, T) \<in> (dep_edges ts)\<^sup>+"
  then obtain T where T: "(T, T) \<in> (set (edges (dependency_graph ts)))\<^sup>+"
    by (auto simp: edges_dependency_graph)
  then obtain u where "(u, T) \<in> set (edges (dependency_graph ts))" by (meson tranclD2)
  with endpoints_closed_dependency_graph[of ts] have "T \<in> set (nodes (dependency_graph ts))"
    by (force simp: endpoints_closed_def)
  with T show "has_cycle (dependency_graph ts)" by (auto simp: has_cycle_def)
qed

lemma missing_in_Some:
  "missing_in ts ds = Some d \<Longrightarrow> d \<in> set ds \<and> d \<notin> set (map fst ts)"
  by (induction ds) (auto split: if_splits)

lemma first_missing_Some:
  "first_missing ts us = Some (k, d) \<Longrightarrow>
     \<exists>t. (k, t) \<in> set us \<and> d \<in> set (dependencies t) \<and> d \<notin> set (map fst ts)"
proof (induction us)
  case Nil
  then show ?case by simp
next
  case (Cons u us)
  obtain k' t' where u: "u = (k', t')" by (cases u)
  show ?case
  proof (cases "missing_in ts (dependencies t')")
    case None
    with Cons u show ?thesis by auto
  next
    case (Some d')
    with Cons.prems u have "k = k'" "d = d'" by simp_all
    with missing_in_Some[OF Some] u show ?thesis by auto
  qed
qed

lemma all_known_unknown:
  "all_known (tasks st) \<longleftrightarrow> \<not> (\<exists>k d. unknown_dependency st k d)"
  by (auto simp: all_known_def unknown_dependency_def keys_def)

text \<open>
  Claim C4.  \<open>validate_tasks\<close> returns the state it was given.  When some task lists a
  dependency that is not a key of the dictionary, it fails with the message that quotes
  such a task and its missing dependency.  When every dependency is known and the
  dependency relation has a directed cycle, it fails with the fixed circular-dependency
  message.  In the remaining case it succeeds with the empty message.
\<close>

theorem validate_tasks_correct:
  "snd (validate_tasks st) = st \<and>
   ((\<exists>k d. unknown_dependency st k d) \<longrightarrow>
      (\<exists>k d. unknown_dependency st k d \<and>
         fst (validate_tasks st) =
           (False, ''Task '' @ [CHR 0x27] @ k @ [CHR 0x27] @ '' depends on non-existent task ''
                     @ [CHR 0x27] @ d @ [CHR 0x27]))) \<and>
   (\<not> (\<exists>k d. unknown_dependency st k d) \<and> (\<exists>T. (T, T) \<in> (dep_edges (tasks st))\<^sup>+) \<longrightarrow>
      fst (validate_tasks st) = (False, ''Circular dependency detected in the project'')) \<and>
   (\<not> (\<exists>k d. unknown_dependency st k d) \<and> \<not> (\<exists>T. (T, T) \<in> (dep_edges (tasks st))\<^sup>+) \<longrightarrow>
      fst (validate_tasks st) = (True, []))"
proof (intro conjI impI)
  show "snd (validate_tasks st) = st" by (rule validate_tasks_state)
next
  assume "\<exists>k d. unknown_dependency st k d"
  then have "first_missing (tasks st) (tasks st) \<noteq> None"
    using all_known_unknown[of st] by (simp add: all_known_iff)
  then obtain k d where fm: "first_missing (tasks st) (tasks st) = Some (k, d)" by auto
  from first_missing_Some[OF fm] have "unknown_dependency st k d"
    by (simp add: unknown_dependency_def keys_def)
  moreover from fm have "fst (validate_tasks st) =
           (False, ''Task '' @ [CHR 0x27] @ k @ [CHR 0x27] @ '' depends on non-existent task ''
                     @ [CHR 0x27] @ d @ [CHR 0x27])"
    by (simp add: validate_tasks_def missing_message_def)
  ultimately show "\<exists>k d. unknown_dependency st k d \<and>
         fst (validate_tasks st) =
           (False, ''Task '' @ [CHR 0x27] @ k @ [CHR 0x27] @ '' depends on non-existent task ''
                     @ [CHR 0x27] @ d @ [CHR 0x27])"
    by blast
next
  assume "\<not> (\<exists>k d. unknown_dependency st k d) \<and> (\<exists>T. (T, T) \<in> (dep_edges (tasks st))\<^sup>+)"
  then have "first_missing (tasks st) (tasks st) = None"
    and "has_cycle (dependency_graph (tasks st))"
    using all_known_unknown[of st] has_cycle_dependency_graph[of "tasks st"]
    by (simp_all add: all_known_iff)
  then show "fst (validate_tasks st) = (False, ''Circular dependency detected in the project'')"
    by (simp add: validate_tasks_def cycle_message_def)
next
  assume "\<not> (\<exists>k d. unknown_dependency st k d) \<and> \<not> (\<exists>T. (T, T) \<in> (dep_edges (tasks st))\<^sup>+)"
  then have "first_missing (tasks st) (tasks st) = None"
    and "\<not> has_cycle (dependency_graph (tasks st))"
    using all_known_unknown[of st] has_cycle_dependency_graph[of "tasks st"]
    by (simp_all add: all_known_iff)
  then show "fst (validate_tasks st) = (True, [])"
    by (simp add: validate_tasks_def)
qed

theorem validate_tasks_correct_witness:
  "fst (fst (validate_tasks dangling_project)) = False
   \<and> snd (validate_tasks dangling_project) = dangling_project
   \<and> snd (fst (validate_tasks dangling_project))
       = ''Task '' @ [CHR 0x27] @ ''B'' @ [CHR 0x27] @ '' depends on non-existent task ''
           @ [CHR 0x27] @ ''Z'' @ [CHR 0x27]"
proof -
  have t: "tasks dangling_project =
     [(''A'', \<lparr>duration = 3, dependencies = [], est = 0, eft = 0, lst = 0, lft = 0, float = 0\<rparr>),
      (''B'', \<lparr>duration = 4, dependencies = [''Z''], est = 0, eft = 0, lst = 0, lft = 0,
               float = 0\<rparr>)]"
    by (simp add: dangling_project_def add_task_def init_def)
  have "unknown_dependency dangling_project ''B'' ''Z''"
    unfolding unknown_dependency_def keys_def t by simp
  then have h: "\<exists>k d. unknown_dependency dangling_project k d" by blast
  from validate_tasks_correct[of dangling_project] h
  have "fst (fst (validate_tasks dangling_project)) = False
      \<and> snd (validate_tasks dangling_project) = dangling_project"
    by fastforce
  moreover have "snd (fst (validate_tasks dangling_project))
       = ''Task '' @ [CHR 0x27] @ ''B'' @ [CHR 0x27] @ '' depends on non-existent task ''
           @ [CHR 0x27] @ ''Z'' @ [CHR 0x27]"
    unfolding dangling_project_def by code_simp
  ultimately show ?thesis by simp
qed

text \<open>
  In exact arithmetic the passes raise nothing on a validated project, so the only failure
  of \<open>analyze\<close> is the one of the validation, which returns before any assignment.
\<close>

lemma analyze_exact_failure:
  fixes st :: "'a::linordered_ab_group_add PERTDiagram"
  assumes "reachable st" and "analyze st = ((False, msg), st')"
  shows "st' = st"
proof -
  from assms(1) have "distinct (keys st)" by (rule reachable_distinct)
  then show ?thesis
  proof (cases rule: analyze_cases)
    case (valid s)
    with assms(2) show ?thesis by simp
  next
    case (invalid m)
    with assms(2) show ?thesis by simp
  qed
qed

section \<open>Uniqueness of the analysis\<close>

lemma topo_induct:
  assumes "topo_from nb D xs" "\<forall>d \<in> D. P d"
    and step: "\<And>t. t \<in> set xs \<Longrightarrow> (\<forall>d \<in> set (nb t). P d) \<Longrightarrow> P t"
  shows "\<forall>t \<in> D \<union> set xs. P t"
  using assms(1,2) step
proof (induction xs arbitrary: D)
  case Nil
  then show ?case by simp
next
  case (Cons x xs)
  from Cons.prems(1) have nx: "set (nb x) \<subseteq> D" and t: "topo_from nb (insert x D) xs" by simp_all
  from nx Cons.prems(2) have "\<forall>d \<in> set (nb x). P d" by blast
  with Cons.prems(3)[of x] have "P x" by simp
  with Cons.prems(2) have "\<forall>d \<in> insert x D. P d" by simp
  from Cons.IH[OF t this] Cons.prems(3) have "\<forall>t \<in> insert x D \<union> set xs. P t" by simp
  then show ?case by simp
qed

lemma valid_orders:
  fixes st :: "'a PERTDiagram"
  assumes dk: "distinct (keys st)" and ak: "all_known (tasks st)"
    and ac: "\<not> has_cycle (dependency_graph (tasks st))"
  obtains order where "set order = set (keys st)"
    "topo_from (predecessors (dependency_graph (tasks st))) {} order"
    "topo_from (successors (dependency_graph (tasks st))) {} (rev order)"
proof -
  let ?G = "dependency_graph (tasks st)"
  from dk have dk': "distinct (map fst (tasks st))" by (simp add: keys_def)
  have wf: "wf_graph ?G" using dk' ak by (rule wf_dependency_graph)
  have nodes: "nodes ?G = keys st"
    unfolding keys_def using dk' ak by (rule dependency_graph_props)
  from topological_sort_acyclic[OF wf ac] obtain order where
    dord: "distinct order" and sord: "set order = set (nodes ?G)"
    and topo: "topo_from (predecessors ?G) {} order"
    by auto
  have "topo_from (successors ?G) {} (rev order)"
    using wf dord sord topo by (rule topo_rev)
  with sord topo nodes that show ?thesis by simp
qed



section \<open>The breadth-first traversal\<close>


lemma bfs_subset:
  "set (bfs G q V p) \<subseteq> set p \<union> set q \<union> snd ` set (edges G)"
proof (induction G q V p rule: bfs.induct)
  case (1 G visited path)
  then show ?case by simp
next
  case (2 G task_id queue visited path)
  have s: "set (successors G task_id) \<subseteq> snd ` set (edges G)"
    by (auto simp: successors_def)
  show ?case
  proof (cases "task_id \<in> visited")
    case True
    with 2 show ?thesis by auto
  next
    case False
    with 2(1) have "set (bfs G (task_id # queue) visited path)
        \<subseteq> set (path @ [task_id])
          \<union> set (queue @ filter (\<lambda>succ. succ \<notin> insert task_id visited) (successors G task_id))
          \<union> snd ` set (edges G)" by simp
    with s show ?thesis by auto
  qed
qed

lemma bfs_closed:
  "V = set p \<Longrightarrow> (\<forall>v \<in> V. set (successors G v) \<subseteq> V \<union> set q) \<Longrightarrow>
     V \<union> set q \<subseteq> set (bfs G q V p)
     \<and> (\<forall>v \<in> set (bfs G q V p). set (successors G v) \<subseteq> set (bfs G q V p))"
proof (induction G q V p rule: bfs.induct)
  case (1 G visited path)
  then show ?case by simp
next
  case (2 G task_id queue visited path)
  show ?case
  proof (cases "task_id \<in> visited")
    case True
    have "\<forall>v \<in> visited. set (successors G v) \<subseteq> visited \<union> set queue"
      using "2.prems"(2) True by auto
    from "2.IH"(2)[OF _ "2.prems"(1) this] True
    have "visited \<union> set queue \<subseteq> set (bfs G queue visited path)
       \<and> (\<forall>v \<in> set (bfs G queue visited path).
            set (successors G v) \<subseteq> set (bfs G queue visited path))" by simp
    with True show ?thesis by auto
  next
    case False
    let ?V = "insert task_id visited"
    let ?q = "queue @ filter (\<lambda>succ. succ \<notin> ?V) (successors G task_id)"
    let ?R = "set (bfs G ?q ?V (path @ [task_id]))"
    have v: "?V = set (path @ [task_id])" using "2.prems"(1) by simp
    have i: "\<forall>v \<in> ?V. set (successors G v) \<subseteq> ?V \<union> set ?q"
      using "2.prems"(2) by auto
    from "2.IH"(1)[OF False v i]
    have "?V \<union> set ?q \<subseteq> ?R \<and> (\<forall>v \<in> ?R. set (successors G v) \<subseteq> ?R)" .
    moreover have "bfs G (task_id # queue) visited path = bfs G ?q ?V (path @ [task_id])"
      using False by simp
    ultimately show ?thesis by auto
  qed
qed

lemma bfs_distinct:
  "V = set p \<Longrightarrow> distinct p \<Longrightarrow> distinct (bfs G q V p)"
proof (induction G q V p rule: bfs.induct)
  case (1 G visited path)
  then show ?case by simp
next
  case (2 G task_id queue visited path)
  show ?case
  proof (cases "task_id \<in> visited")
    case True
    with 2 show ?thesis by simp
  next
    case False
    have "distinct (path @ [task_id])" using False "2.prems" by simp
    moreover have "insert task_id visited = set (path @ [task_id])" using "2.prems"(1) by simp
    ultimately have "distinct (bfs G
        (queue @ filter (\<lambda>succ. succ \<notin> insert task_id visited) (successors G task_id))
        (insert task_id visited) (path @ [task_id]))"
      using "2.IH"(1)[OF False] by blast
    with False show ?thesis by simp
  qed
qed

lemma subgraph_edges:
  "set (edges (subgraph G ns)) = {e \<in> set (edges G). fst e \<in> set ns \<and> snd e \<in> set ns}"
  by (auto simp: subgraph_def)

lemma in_degree_zero_iff:
  "in_degree G v = 0 \<longleftrightarrow> (\<forall>u. (u, v) \<notin> set (edges G))"
  by (auto simp: in_degree_def predecessors_def filter_empty_conv)

lemma critical_tasks_set:
  "set (critical_tasks s) = {k. \<exists>t. (k, t) \<in> set (tasks s) \<and> float t = 0}"
  by (force simp: critical_tasks_def)

lemma critical_tasks_keys:
  "distinct (keys s) \<Longrightarrow>
     set (critical_tasks s) = {k \<in> set (keys s). float (task_of s k) = 0}"
proof -
  assume dk: "distinct (keys s)"
  have "(\<exists>t. (k, t) \<in> set (tasks s) \<and> float t = 0)
      \<longleftrightarrow> k \<in> set (keys s) \<and> float (task_of s k) = 0" for k
  proof
    assume "\<exists>t. (k, t) \<in> set (tasks s) \<and> float t = 0"
    then obtain t where t: "(k, t) \<in> set (tasks s)" "float t = 0" by blast
    from dk t(1) have "map_of (tasks s) k = Some t" by (simp add: keys_def)
    with t show "k \<in> set (keys s) \<and> float (task_of s k) = 0"
      by (force simp: task_of_def keys_def)
  next
    assume a: "k \<in> set (keys s) \<and> float (task_of s k) = 0"
    then have "(k, task_of s k) \<in> set (tasks s)" using map_of_keys map_of_SomeD by fast
    with a show "\<exists>t. (k, t) \<in> set (tasks s) \<and> float t = 0" by blast
  qed
  then show ?thesis by (simp add: critical_tasks_set)
qed

section \<open>Critical tasks and slack\<close>

text \<open>The traversal of \<open>identify_critical_path\<close> on any list \<open>ct\<close> of tasks of a valid
  project: it reaches every member of the list and nothing else.\<close>

lemma critical_traversal_set:
  fixes s :: "'a PERTDiagram"
  assumes dk: "distinct (keys s)" and ak: "all_known (tasks s)"
    and ac: "\<not> has_cycle (dependency_graph (tasks s))"
    and g: "graph s = dependency_graph (tasks s)"
    and ck: "set ct \<subseteq> set (keys s)"
  shows "set (if ct = [] then []
              else if filter (\<lambda>t. in_degree (subgraph (graph s) ct) t = 0) ct = [] then []
              else bfs (subgraph (graph s) ct)
                     (filter (\<lambda>t. in_degree (subgraph (graph s) ct) t = 0) ct) {} [])
           = set ct"
proof
  let ?sub = "subgraph (graph s) ct"
  let ?start = "filter (\<lambda>t. in_degree ?sub t = 0) ct"
  define co where "co = (if ct = [] then [] else if ?start = [] then []
                         else bfs ?sub ?start {} [])"
  let ?R = "set co"
  have bfs_eq: "co = bfs ?sub ?start {} []" if "?R \<noteq> {}"
    using that by (auto simp: co_def split: if_splits)
  have sub: "?R \<subseteq> set ct"
  proof (cases "?R = {}")
    case True
    then show ?thesis by simp
  next
    case False
    have "set (bfs ?sub ?start {} []) \<subseteq> set [] \<union> set ?start \<union> snd ` set (edges ?sub)"
      by (rule bfs_subset)
    also have "\<dots> \<subseteq> set ct" by (auto simp: subgraph_edges)
    finally show ?thesis using bfs_eq[OF False] by simp
  qed
  then show "set (if ct = [] then [] else if ?start = [] then [] else bfs ?sub ?start {} [])
               \<subseteq> set ct"
    by (simp only: co_def)
  obtain order where sord: "set order = set (keys s)"
    and topo: "topo_from (predecessors (dependency_graph (tasks s))) {} order"
    using dk ak ac by (rule valid_orders)
  have closed: "?start \<noteq> [] \<Longrightarrow> set ?start \<subseteq> set (bfs ?sub ?start {} [])
       \<and> (\<forall>v \<in> set (bfs ?sub ?start {} []).
             set (successors ?sub v) \<subseteq> set (bfs ?sub ?start {} []))"
    using bfs_closed[of "{}" "[]" ?sub ?start] by simp
  have "\<forall>t \<in> {} \<union> set order. t \<in> set ct \<longrightarrow> t \<in> ?R"
  proof (rule topo_induct[OF topo])
    show "\<forall>d \<in> {}. d \<in> set ct \<longrightarrow> d \<in> ?R" by simp
  next
    fix t
    assume "t \<in> set order"
      and ih: "\<forall>d \<in> set (predecessors (dependency_graph (tasks s)) t). d \<in> set ct \<longrightarrow> d \<in> ?R"
    show "t \<in> set ct \<longrightarrow> t \<in> ?R"
    proof
      assume t: "t \<in> set ct"
      show "t \<in> ?R"
      proof (cases "in_degree ?sub t = 0")
        case True
        with t have ts: "t \<in> set ?start" by simp
        then have ne: "?start \<noteq> []" by (metis empty_iff empty_set)
        moreover from t have "ct \<noteq> []" by (metis empty_iff empty_set)
        ultimately have "co = bfs ?sub ?start {} []"
          by (simp add: co_def)
        with closed[OF ne] ts show ?thesis by auto
      next
        case False
        then obtain u where u: "(u, t) \<in> set (edges ?sub)"
          by (auto simp: in_degree_zero_iff)
        then have uct: "u \<in> set ct" and e: "(u, t) \<in> set (edges (graph s))"
          by (auto simp: subgraph_edges)
        from e have "u \<in> set (predecessors (dependency_graph (tasks s)) t)"
          by (simp add: set_predecessors g)
        with ih uct have uR: "u \<in> ?R" by blast
        then have "?R \<noteq> {}" by auto
        from bfs_eq[OF this] have eq: "co = bfs ?sub ?start {} []" .
        have "?start \<noteq> []"
        proof
          assume "?start = []"
          with uR show False by (simp add: co_def split: if_splits)
        qed
        from closed[OF this] uR eq have "set (successors ?sub u) \<subseteq> ?R" by simp
        moreover from u have "t \<in> set (successors ?sub u)" by (simp add: set_successors)
        ultimately show ?thesis by blast
      qed
    qed
  qed
  with ck sord have "set ct \<subseteq> ?R" by auto
  then show "set ct
      \<subseteq> set (if ct = [] then [] else if ?start = [] then [] else bfs ?sub ?start {} [])"
    by (simp only: co_def)
qed

lemma critical_order_set:
  fixes s :: "'a::linordered_ab_group_add PERTDiagram"
  assumes dk: "distinct (keys s)" and ak: "all_known (tasks s)"
    and ac: "\<not> has_cycle (dependency_graph (tasks s))"
    and g: "graph s = dependency_graph (tasks s)"
  shows "set (critical_order s) = set (critical_tasks s)"
proof -
  have "set (critical_tasks s) \<subseteq> set (keys s)"
    by (auto simp: critical_tasks_set keys_def intro: rev_image_eqI)
  from critical_traversal_set[OF dk ak ac g this] show ?thesis
    by (simp add: critical_order_def)
qed

lemma critical_order_distinct: "distinct (critical_order s)"
  by (simp add: critical_order_def bfs_distinct)

lemma analysed_finish_order:
  fixes st :: "'a::linordered_ab_group_add PERTDiagram"
  assumes dk: "distinct (keys st)" and ak: "all_known (tasks st)"
    and ac: "\<not> has_cycle (dependency_graph (tasks st))"
    and A: "analysed st a" and k: "k \<in> set (keys st)"
  shows "eft (task_of a k) \<le> lft (task_of a k)"
proof -
  let ?G = "dependency_graph (tasks st)"
  from A have sa: "static a = static st" and ga: "graph a = ?G"
    and ok: "\<And>k. k \<in> set (keys st) \<Longrightarrow> early_ok a k \<and> late_ok a k"
    and pa: "project_duration a =
       (if tasks st = [] then project_duration st
        else Max ((\<lambda>(k, t). eft t) ` set (tasks a)))"
    by (simp_all add: analysed_def)
  have ka: "keys a = keys st" using sa by (rule static_keys)
  from dk have dk': "distinct (map fst (tasks st))" by (simp add: keys_def)
  obtain order where sord: "set order = set (keys st)"
    and trev: "topo_from (successors ?G) {} (rev order)"
    using dk ak ac by (rule valid_orders)
  have pd_ge: "eft (task_of a t) \<le> project_duration a" if t: "t \<in> set (keys st)" for t
  proof -
    from t have ne: "tasks st \<noteq> []" by (auto simp: keys_def)
    have "eft (task_of a t) \<in> (\<lambda>k. eft (task_of a k)) ` set (keys a)" using t ka by simp
    then have "eft (task_of a t) \<in> (\<lambda>(k, t). eft t) ` set (tasks a)"
      using eft_image[of a] dk ka by simp
    then have "eft (task_of a t) \<le> Max ((\<lambda>(k, t). eft t) ` set (tasks a))" by simp
    with ne pa show ?thesis by simp
  qed
  have "\<forall>t \<in> {} \<union> set (rev order). eft (task_of a t) \<le> lft (task_of a t)"
  proof (rule topo_induct[OF trev])
    show "\<forall>d \<in> {}. eft (task_of a d) \<le> lft (task_of a d)" by simp
  next
    fix t
    assume t: "t \<in> set (rev order)"
      and ih: "\<forall>d \<in> set (successors ?G t). eft (task_of a d) \<le> lft (task_of a d)"
    from t sord have tk: "t \<in> set (keys st)" by simp
    from ok[OF tk] have lt: "late_ok a t" by simp
    show "eft (task_of a t) \<le> lft (task_of a t)"
    proof (cases "successors ?G t = []")
      case True
      with lt ga have "lft (task_of a t) = project_duration a" by (simp add: late_ok_def)
      with pd_ge[OF tk] show ?thesis by simp
    next
      case False
      have "eft (task_of a t) \<le> lst (task_of a x)" if x: "x \<in> set (successors ?G t)" for x
      proof -
        from x successors_dependency_graph[OF dk' ak, of t] obtain ti where
          ti: "map_of (tasks st) x = Some ti" "t \<in> set (dependencies ti)" by auto
        then have xk: "x \<in> set (keys st)"
          by (metis keys_def map_of_eq_None_iff option.distinct(1) set_map)
        from map_of_keys[OF xk] ti have "t \<in> set (dependencies (task_of st x))" by simp
        then have td: "t \<in> set (dependencies (task_of a x))"
          using static_task(2)[OF sa, of x] by simp
        from ok[OF xk] have ex: "early_ok a x" and lx: "late_ok a x" by simp_all
        from td have ne: "dependencies (task_of a x) \<noteq> []" by auto
        let ?A = "insert 0 ((\<lambda>d. eft (task_of a d)) ` set (dependencies (task_of a x)))"
        from ex ne have "est (task_of a x) = Max ?A" by (simp add: early_ok_def)
        moreover have "eft (task_of a t) \<le> Max ?A" using td by (intro Max_ge) auto
        ultimately have 1: "eft (task_of a t) \<le> est (task_of a x)" by simp
        from ex have "eft (task_of a x) = est (task_of a x) + duration (task_of a x)"
          by (simp add: early_ok_def)
        moreover from lx have "lst (task_of a x) = lft (task_of a x) - duration (task_of a x)"
          by (simp add: late_ok_def)
        moreover from ih x have "eft (task_of a x) \<le> lft (task_of a x)" by blast
        ultimately have "est (task_of a x) \<le> lst (task_of a x)"
          by (simp add: le_diff_eq)
        with 1 show ?thesis by simp
      qed
      then have "eft (task_of a t) \<le> Min ((\<lambda>x. lst (task_of a x)) ` set (successors ?G t))"
        using False by (simp add: Min_ge_iff)
      with lt ga False show ?thesis by (simp add: late_ok_def)
    qed
  qed
  with k sord show ?thesis by simp
qed

section \<open>Slack in exact arithmetic\<close>

text \<open>
  In exact arithmetic, on an object reachable through the interface on which \<open>analyze\<close>
  succeeds: no slack is negative, a task whose duration is not negative finishes no earlier
  than it starts, and the tasks on the critical path are the tasks of slack 0.
\<close>

lemma slack_exact:
  fixes st :: "'a::linordered_ab_group_add PERTDiagram"
  assumes r: "reachable st" and an: "analyze st = ((True, msg), st')"
  shows "(\<forall>T \<in> set (keys st').
            0 \<le> slack st' T \<and>
            (0 \<le> duration_of st' T \<longrightarrow>
               earliest_start st' T \<le> earliest_finish st' T \<and>
               latest_start st' T \<le> latest_finish st' T)) \<and>
         set (critical_path st') = {T \<in> set (keys st'). slack st' T = 0}"
proof -
  note a = analyze_success[OF r an]
  from a(1) have st: "static st' = static st"
    and g: "graph st' = dependency_graph (tasks st)"
    and ok: "\<And>k. k \<in> set (keys st) \<Longrightarrow> early_ok st' k \<and> late_ok st' k"
    and cp: "critical_path st' = critical_order st'"
    by (simp_all add: analysed_def)
  have ks: "keys st' = keys st" using st by (rule static_keys)
  have dk': "distinct (keys st')" using a(4) ks by simp
  have ak': "all_known (tasks st')" using static_all_known[OF st] a(2) by simp
  have ac': "\<not> has_cycle (dependency_graph (tasks st'))"
    using static_dependency_graph[OF st] a(3) by simp
  have g': "graph st' = dependency_graph (tasks st')"
    using g static_dependency_graph[OF st] by simp
  have per_task: "0 \<le> slack st' T \<and>
            (0 \<le> duration_of st' T \<longrightarrow>
               earliest_start st' T \<le> earliest_finish st' T \<and>
               latest_start st' T \<le> latest_finish st' T)"
    if T: "T \<in> set (keys st')" for T
  proof -
    from T ks have Tk: "T \<in> set (keys st)" by simp
    from ok[OF Tk] have e: "eft (task_of st' T) = est (task_of st' T) + duration (task_of st' T)"
      and l: "lst (task_of st' T) = lft (task_of st' T) - duration (task_of st' T)"
      and f: "float (task_of st' T) = lst (task_of st' T) - est (task_of st' T)"
      by (simp_all add: early_ok_def late_ok_def)
    from analysed_finish_order[OF a(4) a(2) a(3) a(1) Tk]
    have "est (task_of st' T) + duration (task_of st' T) \<le> lft (task_of st' T)"
      by (simp add: e)
    then have "est (task_of st' T) \<le> lst (task_of st' T)" by (simp add: l le_diff_eq)
    then have 1: "0 \<le> slack st' T" by (simp add: slack_def f)
    have 2: "earliest_start st' T \<le> earliest_finish st' T"
      and 3: "latest_start st' T \<le> latest_finish st' T" if "0 \<le> duration_of st' T"
      using that
      by (simp_all add: earliest_start_def earliest_finish_def latest_start_def
          latest_finish_def duration_of_def e l)
    from 1 2 3 show ?thesis by blast
  qed
  have "set (critical_path st') = set (critical_tasks st')"
    unfolding cp using dk' ak' ac' g' by (rule critical_order_set)
  also have "\<dots> = {T \<in> set (keys st'). slack st' T = 0}"
    using critical_tasks_keys[OF dk'] by (simp add: slack_def)
  finally show ?thesis using per_task by blast
qed

section \<open>The critical path of the specification\<close>

termination spec_traverse
proof (relation "measures [\<lambda>(E, queue, path). card ((set queue \<union> snd ` set E) - set path),
                           \<lambda>(E, queue, path). length queue]", goal_cases)
  case 1
  show ?case by simp
next
  case (2 E T queue path)
  have "(set queue \<union> snd ` set E) - set path \<subseteq> (set (T # queue) \<union> snd ` set E) - set path"
    by auto
  moreover have "finite ((set (T # queue) \<union> snd ` set E) - set path)" by simp
  ultimately have "card ((set queue \<union> snd ` set E) - set path)
      \<le> card ((set (T # queue) \<union> snd ` set E) - set path)"
    by (rule card_mono[rotated])
  then show ?case by auto
next
  case (3 E T queue path)
  let ?U = "set (T # queue) \<union> snd ` set E"
  let ?q' = "queue @ filter (\<lambda>S. S \<notin> set (path @ [T])) (map snd (filter (\<lambda>e. fst e = T) E))"
  have sub: "(set ?q' \<union> snd ` set E) - set (path @ [T]) \<subseteq> ?U - set path"
    by auto
  have "T \<in> ?U - set path" using 3 by simp
  moreover have "T \<notin> (set ?q' \<union> snd ` set E) - set (path @ [T])" by simp
  ultimately have "(set ?q' \<union> snd ` set E) - set (path @ [T]) \<subset> ?U - set path"
    using sub by blast
  moreover have "finite (?U - set path)" by simp
  ultimately have "card ((set ?q' \<union> snd ` set E) - set (path @ [T])) < card (?U - set path)"
    by (rule psubset_card_mono[rotated])
  then show ?case by simp
qed

lemma bfs_spec_traverse:
  "V = set p \<Longrightarrow> bfs G q V p = spec_traverse (edges G) q p"
proof (induction G q V p rule: bfs.induct)
  case (1 G visited path)
  then show ?case by simp
next
  case (2 G task_id queue visited path)
  show ?case
  proof (cases "task_id \<in> visited")
    case True
    with 2 show ?thesis by simp
  next
    case False
    have v: "insert task_id visited = set (path @ [task_id])" using "2.prems" by simp
    from "2.IH"(1)[OF False v] False "2.prems" show ?thesis
      by (simp add: successors_def)
  qed
qed

lemma keys_filter_values:
  "distinct (map fst xs) \<Longrightarrow>
     map fst (filter (\<lambda>(k, t). P t) xs) = filter (\<lambda>k. P (the (map_of xs k))) (map fst xs)"
proof (induction xs)
  case Nil
  then show ?case by simp
next
  case (Cons x xs)
  obtain k v where x: "x = (k, v)" by (cases x)
  from Cons.prems x have kn: "k \<notin> set (map fst xs)" and d: "distinct (map fst xs)" by auto
  have "filter (\<lambda>k'. P (the (map_of (x # xs) k'))) (map fst xs)
      = filter (\<lambda>k'. P (the (map_of xs k'))) (map fst xs)"
    by (rule filter_cong) (use kn x in auto)
  with Cons.IH[OF d] x show ?case by simp
qed

lemma critical_tasks_spec:
  "distinct (keys s) \<Longrightarrow> critical_tasks s = spec_critical_tasks s"
  using keys_filter_values[of "tasks s" "\<lambda>t. float t = 0"]
  by (simp add: critical_tasks_def spec_critical_tasks_def keys_def slack_def task_of_def)

lemma critical_order_spec:
  assumes "distinct (keys s)"
  shows "critical_order s = spec_critical_path s"
proof -
  let ?ct = "spec_critical_tasks s"
  have ct: "critical_tasks s = ?ct" using assms by (rule critical_tasks_spec)
  have e: "edges (subgraph (graph s) ?ct) = spec_induced_edges s"
    by (simp add: subgraph_def spec_induced_edges_def case_prod_unfold)
  have "in_degree (subgraph (graph s) ?ct) t = 0
      \<longleftrightarrow> \<not> (\<exists>e \<in> set (spec_induced_edges s). snd e = t)" for t
    unfolding in_degree_zero_iff e by force
  then have st: "filter (\<lambda>t. in_degree (subgraph (graph s) ?ct) t = 0) ?ct = spec_seeds s"
    by (simp add: spec_seeds_def)
  have sn: "spec_seeds s = []" if "?ct = []"
    using that by (simp add: spec_seeds_def)
  show ?thesis
    unfolding critical_order_def ct st spec_critical_path_def
    using sn by (simp add: bfs_spec_traverse e)
qed

text \<open>
  Claim C3.  Let the object be reachable through the interface and let \<open>analyze\<close> succeed.
  Then the critical path is the sequence the specification describes, and it is empty
  when there is no critical task or no critical task without a critical predecessor.
\<close>

theorem critical_path_is_spec_traversal:
  fixes st :: "'a::linordered_ab_group_add PERTDiagram"
  assumes r: "reachable st" and an: "analyze st = ((True, msg), st')"
  shows "critical_path st' = spec_critical_path st' \<and>
         (spec_critical_tasks st' = [] \<or> spec_seeds st' = [] \<longrightarrow> critical_path st' = [])"
proof -
  note a = analyze_success[OF r an]
  from a(1) have st: "static st' = static st" and cp: "critical_path st' = critical_order st'"
    by (simp_all add: analysed_def)
  have dk': "distinct (keys st')" using a(4) static_keys[OF st] by simp
  have eq: "critical_path st' = spec_critical_path st'"
    unfolding cp using dk' by (rule critical_order_spec)
  have "critical_path st' = []" if "spec_critical_tasks st' = [] \<or> spec_seeds st' = []"
  proof -
    from that have "spec_seeds st' = []" by (auto simp: spec_seeds_def)
    then show ?thesis unfolding eq by (simp add: spec_critical_path_def)
  qed
  with eq show ?thesis by blast
qed

theorem critical_path_is_spec_traversal_witness:
  "critical_path (snd (analyze sample_project)) = [''A'', ''B'', ''D'', ''F'', ''G'']
   \<and> spec_critical_path (snd (analyze sample_project)) = [''A'', ''B'', ''D'', ''F'', ''G'']"
proof -
  have r: "reachable sample_project"
    unfolding sample_project_def by (intro reachable.intros)
  have "fst (analyze sample_project) = (True, [])"
    unfolding sample_project_def by code_simp
  then have a: "analyze sample_project = ((True, []), snd (analyze sample_project))"
    by (metis prod.collapse)
  have c: "critical_path (snd (analyze sample_project)) = [''A'', ''B'', ''D'', ''F'', ''G'']"
    unfolding sample_project_def by code_simp
  from critical_path_is_spec_traversal[OF r a] c show ?thesis by simp
qed

section \<open>Evaluating the rounding\<close>

lemma floor_log2_eqI:
  assumes x: "0 < x" and lo: "2 powi e \<le> x" and hi: "x < 2 powi (e + 1)"
  shows "floor_log2 x = e"
proof -
  obtain a b where q: "quotient_of x = (a, b)" by (cases "quotient_of x")
  have b: "0 < b" using q by (rule quotient_of_denom_pos)
  have xab: "x = of_int a / of_int b" using q by (rule quotient_of_div)
  have a: "0 < a"
  proof -
    from x xab b have "0 < (of_int a :: rat)" by (simp add: zero_less_divide_iff)
    then show ?thesis by simp
  qed
  define ka where "ka = bitlen a"
  define kb where "kb = bitlen b"
  from bitlen_bounds[OF a] have a1: "2 ^ nat (ka - 1) \<le> a" and a2: "a < 2 ^ nat ka"
    by (simp_all add: ka_def)
  from bitlen_bounds[OF b] have b1: "2 ^ nat (kb - 1) \<le> b" and b2: "b < 2 ^ nat kb"
    by (simp_all add: kb_def)
  have ka: "1 \<le> ka" using a by (simp add: ka_def bitlen_def floorlog_def)
  have kb: "1 \<le> kb" using b by (simp add: kb_def bitlen_def floorlog_def)
  have ra1: "(2::rat) powi (ka - 1) \<le> of_int a"
  proof -
    from a1 have "(of_int (2 ^ nat (ka - 1)) :: rat) \<le> of_int a" by (simp only: of_int_le_iff)
    then show ?thesis using ka by (simp add: power_int_def)
  qed
  have ra2: "(of_int a :: rat) < 2 powi ka"
  proof -
    from a2 have "(of_int a :: rat) < of_int (2 ^ nat ka)" by (simp only: of_int_less_iff)
    then show ?thesis using ka by (simp add: power_int_def)
  qed
  have rb1: "(2::rat) powi (kb - 1) \<le> of_int b"
  proof -
    from b1 have "(of_int (2 ^ nat (kb - 1)) :: rat) \<le> of_int b" by (simp only: of_int_le_iff)
    then show ?thesis using kb by (simp add: power_int_def)
  qed
  have rb2: "(of_int b :: rat) < 2 powi kb"
  proof -
    from b2 have "(of_int b :: rat) < of_int (2 ^ nat kb)" by (simp only: of_int_less_iff)
    then show ?thesis using kb by (simp add: power_int_def)
  qed
  have rb: "(0::rat) < of_int b" using b by simp
  have up: "x < 2 powi (ka - kb + 1)"
  proof -
    have "x * of_int b = of_int a" using xab rb by simp
    also have "\<dots> < 2 powi ka" by (rule ra2)
    also have "\<dots> = (2::rat) powi (ka - kb + 1) * 2 powi (kb - 1)"
      by (simp add: power_int_add[symmetric])
    also have "\<dots> \<le> 2 powi (ka - kb + 1) * of_int b"
      using rb1 by (intro mult_left_mono) simp_all
    finally show ?thesis using rb by simp
  qed
  have down: "2 powi (ka - kb - 1) < x"
  proof -
    have "(2::rat) powi (ka - kb - 1) * of_int b < 2 powi (ka - kb - 1) * 2 powi kb"
      using rb2 by (intro mult_strict_left_mono) simp_all
    also have "\<dots> = 2 powi (ka - 1)" by (simp add: power_int_add[symmetric])
    also have "\<dots> \<le> of_int a" by (rule ra1)
    also have "\<dots> = x * of_int b" using xab rb by simp
    finally show ?thesis using rb by simp
  qed
  have mono: "i < j" if "(2::rat) powi i < 2 powi j" for i j :: int
  proof (rule ccontr)
    assume "\<not> i < j"
    then have "j \<le> i" by simp
    then have "(2::rat) powi j \<le> 2 powi i" by (intro power_int_increasing) simp_all
    with that show False by simp
  qed
  have e1: "e < ka - kb + 1"
  proof -
    from lo up have "(2::rat) powi e < 2 powi (ka - kb + 1)" by (rule le_less_trans)
    then show ?thesis by (rule mono)
  qed
  have e2: "ka - kb - 1 < e + 1"
  proof -
    from down hi have "(2::rat) powi (ka - kb - 1) < 2 powi (e + 1)" by (rule less_trans)
    then show ?thesis by (rule mono)
  qed
  show ?thesis
  proof (cases "2 powi (ka - kb) \<le> x")
    case True
    from True hi have "(2::rat) powi (ka - kb) < 2 powi (e + 1)" by (rule le_less_trans)
    then have "ka - kb < e + 1" by (rule mono)
    with e1 have "e = ka - kb" by simp
    with True q show ?thesis by (simp add: floor_log2_def ka_def kb_def)
  next
    case False
    have "e \<noteq> ka - kb" using False lo by auto
    with e1 e2 have "e = ka - kb - 1" by simp
    with False q show ?thesis by (simp add: floor_log2_def ka_def kb_def)
  qed
qed

lemma floor_rat_numeral:
  "\<lfloor>(numeral a / numeral b :: rat)\<rfloor> = numeral a div numeral b"
  using floor_divide_of_int_eq[of "numeral a" "numeral b", where ?'a = rat] by simp

lemmas round64_eval =
  round64_def round_half_even_def power_int_def power_divide Let_def floor_rat_numeral

lemma round64_tenth: "round64 (1 / 10) = Fin (3602879701896397 / 36028797018963968)"
proof -
  have "floor_log2 (1 / 10) = - 4"
    by (rule floor_log2_eqI) (simp_all add: power_int_def power_divide)
  then show ?thesis
    by (simp add: round64_eval)
qed

lemma round64_huge: "round64 (of_int (10 ^ 400)) = Infinity True"
proof -
  have "floor_log2 (10 ^ 400) = 1328"
    by (rule floor_log2_eqI) (simp_all add: power_int_def power_divide)
  then show ?thesis
    by (simp add: round64_eval)
qed

section \<open>The runs of the examples on Python numbers\<close>

lemma round64_zero: "round64 0 = Fin 0"
  by (simp add: round64_def)

lemma to_float_float: "to_float (PyFloat x) = Inr x"
  by (simp add: to_float_def)

lemma round64_two_fifths: "round64 (2 / 5) = Fin (3602879701896397 / 9007199254740992)"
proof -
  have "floor_log2 (2 / 5) = - 2"
    by (rule floor_log2_eqI) (simp_all add: power_int_def power_divide)
  then show ?thesis
    by (simp add: round64_eval)
qed

lemma round64_half: "round64 (1 / 2) = Fin (1 / 2)"
proof -
  have "floor_log2 (1 / 2) = - 1"
    by (rule floor_log2_eqI) (simp_all add: power_int_def power_divide)
  then show ?thesis
    by (simp add: round64_eval)
qed

text \<open>The five roundings of the run on durations \<open>0.1\<close> and \<open>0.4\<close>.\<close>

lemma tenth_plus_zero:
  "py_add (PyInt 0) (PyFloat (Fin (3602879701896397 / 36028797018963968)))
     = Inr (PyFloat (Fin (3602879701896397 / 36028797018963968)))"
proof -
  have "floor_log2 (3602879701896397 / 36028797018963968) = - 4"
    by (rule floor_log2_eqI) (simp_all add: power_int_def power_divide)
  then show ?thesis
    by (simp add: py_add_def to_float_def round64_zero round64_eval)
qed

lemma tenth_plus_two_fifths:
  "py_add (PyFloat (Fin (3602879701896397 / 36028797018963968)))
          (PyFloat (Fin (3602879701896397 / 9007199254740992)))
     = Inr (PyFloat (Fin (1 / 2)))"
proof -
  have "floor_log2 (18014398509481985 / 36028797018963968) = - 1"
    by (rule floor_log2_eqI) (simp_all add: power_int_def power_divide)
  then show ?thesis
    by (simp add: py_add_def to_float_def round64_eval)
qed

lemma half_minus_two_fifths:
  "py_sub (PyFloat (Fin (1 / 2))) (PyFloat (Fin (3602879701896397 / 9007199254740992)))
     = Inr (PyFloat (Fin (900719925474099 / 9007199254740992)))"
proof -
  have "floor_log2 (900719925474099 / 9007199254740992) = - 4"
    by (rule floor_log2_eqI) (simp_all add: power_int_def power_divide)
  then show ?thesis
    by (simp add: py_sub_def float_sub_def to_float_def round64_eval)
qed

lemma difference_minus_tenth:
  "py_sub (PyFloat (Fin (900719925474099 / 9007199254740992)))
          (PyFloat (Fin (3602879701896397 / 36028797018963968)))
     = Inr (PyFloat (Fin (- (1 / 36028797018963968))))"
proof -
  have "floor_log2 (1 / 36028797018963968) = - 55"
    by (rule floor_log2_eqI) (simp_all add: power_int_def power_divide)
  then show ?thesis
    by (simp add: py_sub_def float_sub_def to_float_def round64_eval)
qed

lemma negative_minus_zero:
  "py_sub (PyFloat (Fin (- (1 / 36028797018963968)))) (PyInt 0)
     = Inr (PyFloat (Fin (- (1 / 36028797018963968))))"
proof -
  have "floor_log2 (1 / 36028797018963968) = - 55"
    by (rule floor_log2_eqI) (simp_all add: power_int_def power_divide)
  then show ?thesis
    by (simp add: py_sub_def float_sub_def to_float_def round64_zero round64_eval)
qed

lemma chain_graph_acyclic:
  "\<not> has_cycle \<lparr>nodes = [''A'', ''B''], edges = [(''A'', ''B'')]\<rparr>"
  by code_simp

lemma chain_graph_order:
  "topological_sort \<lparr>nodes = [''A'', ''B''], edges = [(''A'', ''B'')]\<rparr> = ([''A'', ''B''], None)"
  by code_simp

lemma chain_graph:
  "dependency_graph [(''A'', ta\<lparr>dependencies := []\<rparr>), (''B'', tb\<lparr>dependencies := [''A'']\<rparr>)]
     = \<lparr>nodes = [''A'', ''B''], edges = [(''A'', ''B'')]\<rparr>"
  by (simp add: dependency_graph_def add_task_nodes_def add_dependency_edges_def add_node_def
        add_edge_def DiGraph_def Let_def)

lemma rounding_project_tasks:
  "rounding_project =
     \<lparr>tasks =
        [(''A'', \<lparr>duration = PyFloat (Fin (3602879701896397 / 36028797018963968)),
                 dependencies = [], est = PyInt 0, eft = PyInt 0, lst = PyInt 0, lft = PyInt 0,
                 float = PyInt 0\<rparr>),
         (''B'', \<lparr>duration = PyFloat (Fin (3602879701896397 / 9007199254740992)),
                 dependencies = [''A''], est = PyInt 0, eft = PyInt 0, lst = PyInt 0,
                 lft = PyInt 0, float = PyInt 0\<rparr>)],
      graph = DiGraph, critical_path = [], project_duration = PyInt 0\<rparr>"
  by (simp add: rounding_project_def add_task_py_def init_py_def round64_tenth round64_two_fifths)

lemma rounding_project_graph:
  "dependency_graph (tasks rounding_project)
     = \<lparr>nodes = [''A'', ''B''], edges = [(''A'', ''B'')]\<rparr>"
  using chain_graph[of "\<lparr>duration = PyFloat (Fin (3602879701896397 / 36028797018963968)),
               dependencies = [], est = PyInt 0, eft = PyInt 0, lst = PyInt 0, lft = PyInt 0,
               float = PyInt 0\<rparr>" "\<lparr>duration = PyFloat (Fin (3602879701896397 / 9007199254740992)),
               dependencies = [''A''], est = PyInt 0, eft = PyInt 0, lst = PyInt 0,
               lft = PyInt 0, float = PyInt 0\<rparr>"]
  by (simp add: rounding_project_tasks)

lemma rounding_project_valid:
  "validate_tasks rounding_project = ((True, []), rounding_project)"
  unfolding validate_tasks_def rounding_project_graph
  by (simp add: chain_graph_acyclic) (simp add: rounding_project_tasks)

lemma rounding_run:
  "analyze_py rounding_project =
     ((True, []),
      \<lparr>tasks =
        [(''A'', \<lparr>duration = PyFloat (Fin (3602879701896397 / 36028797018963968)),
                 dependencies = [], est = PyInt 0,
                 eft = PyFloat (Fin (3602879701896397 / 36028797018963968)),
                 lst = PyFloat (Fin (- (1 / 36028797018963968))),
                 lft = PyFloat (Fin (900719925474099 / 9007199254740992)),
                 float = PyFloat (Fin (- (1 / 36028797018963968)))\<rparr>),
         (''B'', \<lparr>duration = PyFloat (Fin (3602879701896397 / 9007199254740992)),
                 dependencies = [''A''],
                 est = PyFloat (Fin (3602879701896397 / 36028797018963968)),
                 eft = PyFloat (Fin (1 / 2)),
                 lst = PyFloat (Fin (900719925474099 / 9007199254740992)),
                 lft = PyFloat (Fin (1 / 2)),
                 float = PyFloat (Fin (- (1 / 36028797018963968)))\<rparr>)],
      graph = \<lparr>nodes = [''A'', ''B''], edges = [(''A'', ''B'')]\<rparr>,
      critical_path = [], project_duration = PyFloat (Fin (1 / 2))\<rparr>)"
proof -
  note g = rounding_project_graph and v = rounding_project_valid
  show ?thesis
    unfolding analyze_py_def v
    apply (simp add: and_then_def build_graph_def g)
    apply (simp add: rounding_project_tasks calculate_earliest_times_py_def chain_graph_order
        and_then_def earliest_step_py_def update_task_def set_project_duration_py_def
        tenth_plus_zero tenth_plus_two_fifths py_max_def py_lt_def exact_value_def
        calculate_latest_times_py_def seed_latest_finish_def latest_step_py_def successors_def
        finish_latest_py_def py_min_def half_minus_two_fifths difference_minus_tenth
        negative_minus_zero identify_critical_path_py_def critical_tasks_py_def py_eq_def
        Let_def)
    done
qed

lemma overflow_run:
  assumes n: "n = 10 ^ 400"
  shows "analyze_py (add_task_py ''B'' (PyFloat (round64 (1 / 2))) (Some [''A''])
                      (add_task_py ''A'' (PyInt n) (Some []) init_py)) =
     ((False, ''int too large to convert to float''),
      \<lparr>tasks =
        [(''A'', \<lparr>duration = PyInt n, dependencies = [], est = PyInt 0, eft = PyInt n,
                 lst = PyInt 0, lft = PyInt 0, float = PyInt 0\<rparr>),
         (''B'', \<lparr>duration = PyFloat (Fin (1 / 2)), dependencies = [''A''], est = PyInt n,
                 eft = PyInt 0, lst = PyInt 0, lft = PyInt 0, float = PyInt 0\<rparr>)],
      graph = \<lparr>nodes = [''A'', ''B''], edges = [(''A'', ''B'')]\<rparr>,
      critical_path = [], project_duration = PyInt 0\<rparr>)"
proof -
  let ?ta = "\<lparr>duration = PyInt n, dependencies = [], est = PyInt 0, eft = PyInt 0,
              lst = PyInt 0, lft = PyInt 0, float = PyInt 0\<rparr>"
  let ?tb = "\<lparr>duration = PyFloat (Fin (1 / 2)), dependencies = [''A''], est = PyInt 0,
              eft = PyInt 0, lst = PyInt 0, lft = PyInt 0, float = PyInt 0\<rparr>"
  let ?st = "\<lparr>tasks = [(''A'', ?ta), (''B'', ?tb)], graph = DiGraph, critical_path = [],
              project_duration = PyInt 0\<rparr>"
  have st: "add_task_py ''B'' (PyFloat (round64 (1 / 2))) (Some [''A''])
              (add_task_py ''A'' (PyInt n) (Some []) init_py) = ?st"
    by (simp add: add_task_py_def init_py_def round64_half)
  have pos: "0 < n" by (simp add: n)
  have conv: "to_float (PyInt n) = Inl OverflowError"
    using round64_huge by (simp add: to_float_def n)
  have sum: "py_add (PyInt n) (PyFloat (Fin (1 / 2))) = Inl OverflowError"
    by (simp add: py_add_def conv)
  have sum0: "py_add (PyInt 0) (PyInt n) = Inr (PyInt n)"
    by (simp add: py_add_def)
  have g: "dependency_graph [(''A'', ?ta), (''B'', ?tb)]
             = \<lparr>nodes = [''A'', ''B''], edges = [(''A'', ''B'')]\<rparr>"
    using chain_graph[of ?ta ?tb] by simp
  have v: "validate_tasks ?st = ((True, []), ?st)"
    by (simp add: validate_tasks_def g chain_graph_acyclic)
  show ?thesis
    unfolding st analyze_py_def v
    by (simp add: and_then_def build_graph_def g calculate_earliest_times_py_def
        chain_graph_order earliest_step_py_def update_task_def py_max_def py_lt_def
        exact_value_def pos sum sum0)
qed

section \<open>The two embeddings agree on integers\<close>

lemma of_int_task_fields [simp]:
  "duration (of_int_task t) = PyInt (duration t)"
  "dependencies (of_int_task t) = dependencies t"
  "est (of_int_task t) = PyInt (est t)"
  "eft (of_int_task t) = PyInt (eft t)"
  "lst (of_int_task t) = PyInt (lst t)"
  "lft (of_int_task t) = PyInt (lft t)"
  "float (of_int_task t) = PyInt (float t)"
  by (simp_all add: of_int_task_def)

lemma of_int_project_fields [simp]:
  "tasks (of_int_project st) = map (\<lambda>(k, t). (k, of_int_task t)) (tasks st)"
  "graph (of_int_project st) = graph st"
  "critical_path (of_int_project st) = critical_path st"
  "project_duration (of_int_project st) = PyInt (project_duration st)"
  by (simp_all add: of_int_project_def)

lemma keys_of_int_tasks:
  "map fst (map (\<lambda>(k, t). (k, of_int_task t)) ts) = map fst ts"
  by (simp add: comp_def case_prod_unfold)

lemma keys_of_int_project [simp]: "keys (of_int_project st) = keys st"
  by (simp add: keys_def comp_def case_prod_unfold)

lemma map_of_of_int_tasks [simp]:
  "map_of (map (\<lambda>(k, t). (k, of_int_task t)) ts) k = map_option of_int_task (map_of ts k)"
  by (induction ts) auto

lemma task_of_of_int_project:
  "k \<in> set (keys st) \<Longrightarrow> task_of (of_int_project st) k = of_int_task (task_of st k)"
proof -
  assume "k \<in> set (keys st)"
  then have "map_of (tasks st) k = Some (task_of st k)" by (rule map_of_keys)
  then obtain t where "map_of (tasks st) k = Some t" by blast
  then show ?thesis by (simp add: task_of_def)
qed

subsection \<open>Arithmetic on integers is exact\<close>

lemma py_add_int [simp]: "py_add (PyInt m) (PyInt n) = Inr (PyInt (m + n))"
  by (simp add: py_add_def)

lemma py_sub_int [simp]: "py_sub (PyInt m) (PyInt n) = Inr (PyInt (m - n))"
  by (simp add: py_sub_def)

lemma py_lt_int [simp]: "py_lt (PyInt m) (PyInt n) \<longleftrightarrow> m < n"
  by (simp add: py_lt_def exact_value_def)

lemma py_eq_int [simp]: "py_eq (PyInt m) (PyInt n) \<longleftrightarrow> m = n"
  by (simp add: py_eq_def exact_value_def)

lemma py_le_int [simp]: "py_le (PyInt m) (PyInt n) \<longleftrightarrow> m \<le> n"
  by (auto simp: py_le_def)

lemma py_max_int [simp]: "py_max (PyInt m) (PyInt n) = PyInt (max m n)"
  by (simp add: py_max_def max_def)

lemma py_min_int [simp]: "py_min (PyInt m) (PyInt n) = PyInt (min m n)"
  by (auto simp: py_min_def min_def)

lemma py_min_infinity [simp]: "py_min (PyFloat (Infinity True)) (PyInt n) = PyInt n"
  by (simp add: py_min_def py_lt_def exact_value_def)

subsection \<open>Validation and the graph do not look at the numbers\<close>

lemma add_task_nodes_of_int:
  "add_task_nodes (map (\<lambda>(k, t). (k, of_int_task t)) ts) G = add_task_nodes ts G"
  by (simp add: add_task_nodes_def fold_map comp_def case_prod_unfold)

lemma add_dependency_edges_of_int:
  "add_dependency_edges (map (\<lambda>(k, t). (k, of_int_task t)) ts) G = add_dependency_edges ts G"
  by (simp add: add_dependency_edges_def fold_map comp_def case_prod_unfold)

lemma dependency_graph_of_int [simp]:
  "dependency_graph (map (\<lambda>(k, t). (k, of_int_task t)) ts) = dependency_graph ts"
  by (simp add: dependency_graph_def add_task_nodes_of_int add_dependency_edges_of_int)

lemma missing_in_of_int:
  "missing_in (map (\<lambda>(k, t). (k, of_int_task t)) ts) deps = missing_in ts deps"
  by (induction deps) (simp_all add: comp_def case_prod_unfold)

lemma first_missing_of_int:
  "first_missing (map (\<lambda>(k, t). (k, of_int_task t)) ts)
     (map (\<lambda>(k, t). (k, of_int_task t)) rest) = first_missing ts rest"
  by (induction rest) (auto simp: missing_in_of_int split: option.splits)

lemma validate_tasks_of_int:
  "validate_tasks (of_int_project st) = (fst (validate_tasks st), of_int_project st)"
  by (simp add: validate_tasks_def first_missing_of_int split: option.splits)

lemma build_graph_of_int: "build_graph (of_int_project st) = of_int_project (build_graph st)"
  by (simp add: build_graph_def of_int_project_def)

subsection \<open>The passes\<close>

lemma update_task_of_int:
  assumes "\<And>t. f' (of_int_task t) = of_int_task (f t)"
  shows "update_task k f' (of_int_project st) = of_int_project (update_task k f st)"
  using assms by (simp add: update_task_def of_int_project_def case_prod_unfold if_distrib
      cong: if_cong)

text \<open>With distinct keys, an assignment to the entry of \<open>k\<close> only sees that entry.\<close>

lemma update_task_cong:
  assumes dk: "distinct (keys st)" and ti: "map_of (tasks st) k = Some ti" and fg: "f ti = g ti"
  shows "update_task k f st = update_task k g st"
proof -
  have "(if a = k then (a, f v) else (a, v)) = (if a = k then (a, g v) else (a, v))"
    if "(a, v) \<in> set (tasks st)" for a v
  proof (cases "a = k")
    case True
    from dk have "distinct (map fst (tasks st))" by (simp add: keys_def)
    from this that have "map_of (tasks st) a = Some v" by (rule map_of_is_SomeI)
    with ti True have "v = ti" by simp
    with fg True show ?thesis by simp
  next
    case False
    then show ?thesis by simp
  qed
  then have "map (\<lambda>(a, v). if a = k then (a, f v) else (a, v)) (tasks st)
           = map (\<lambda>(a, v). if a = k then (a, g v) else (a, v)) (tasks st)"
    by (intro map_cong) auto
  then show ?thesis by (simp add: update_task_def)
qed

lemma max_eft_loop_of_int:
  "max_eft_loop_py (map (\<lambda>(k, t). (k, of_int_task t)) ts) deps (PyInt m)
     = (case max_eft_loop ts deps m of Inl e \<Rightarrow> Inl e | Inr v \<Rightarrow> Inr (PyInt v))"
  by (induction deps arbitrary: m) (auto split: option.splits)

lemma earliest_step_of_int:
  assumes dk: "distinct (keys st)"
  shows "earliest_step_py k (of_int_project st)
           = (fst (earliest_step k st), of_int_project (snd (earliest_step k st)))"
proof (cases "map_of (tasks st) k")
  case None
  then show ?thesis by (simp add: earliest_step_py_def earliest_step_def)
next
  case (Some ti)
  have upd: "update_task k (\<lambda>t. t\<lparr>eft := est t + duration t\<rparr>) (update_task k (\<lambda>t. t\<lparr>est := v\<rparr>) st)
               = update_task k (\<lambda>t. t\<lparr>est := v, eft := v + duration ti\<rparr>) st" for v
    unfolding update_task_twice
    by (rule update_task_cong[OF dk Some]) simp
  have upd': "update_task k (\<lambda>t. t\<lparr>eft := PyInt (v + duration ti)\<rparr>)
                 (update_task k (\<lambda>t. t\<lparr>est := PyInt v\<rparr>) (of_int_project st))
               = of_int_project (update_task k (\<lambda>t. t\<lparr>est := v, eft := v + duration ti\<rparr>) st)" for v
    unfolding update_task_twice
    by (rule update_task_of_int) (simp add: of_int_task_def)
  show ?thesis
  proof (cases "dependencies ti = []")
    case True
    with Some show ?thesis
      using upd[of 0] upd'[of 0]
      by (simp add: earliest_step_py_def earliest_step_def)
  next
    case False
    show ?thesis
    proof (cases "max_eft_loop (tasks st) (dependencies ti) 0")
      case (Inl e)
      with Some False show ?thesis
        by (simp add: earliest_step_py_def earliest_step_def max_eft_loop_of_int)
    next
      case (Inr v)
      with Some False show ?thesis
        by (simp add: earliest_step_py_def earliest_step_def max_eft_loop_of_int upd upd')
    qed
  qed
qed

lemma keys_earliest_step [simp]: "keys (snd (earliest_step k st)) = keys st"
  by (simp add: earliest_step_def split: option.splits sum.splits)

text \<open>A loop over the integer object and the same loop over Python numbers.\<close>

lemma for_each_of_int:
  assumes step: "\<And>x s. distinct (keys s) \<Longrightarrow>
                   body' x (of_int_project s) = (fst (body x s), of_int_project (snd (body x s)))"
    and keep: "\<And>x s. keys (snd (body x s)) = keys s"
    and dk: "distinct (keys st)"
  shows "for_each body' xs (of_int_project st)
           = (fst (for_each body xs st), of_int_project (snd (for_each body xs st)))"
  using dk
proof (induction xs arbitrary: st)
  case Nil
  then show ?case by simp
next
  case (Cons x xs)
  obtain e s where b: "body x st = (e, s)" by (cases "body x st")
  from keep[of x st] b have "keys s = keys st" by simp
  with Cons.prems have ds: "distinct (keys s)" by simp
  from step[OF Cons.prems, of x] b have b': "body' x (of_int_project st) = (e, of_int_project s)"
    by simp
  show ?case
  proof (cases e)
    case None
    with b b' Cons.IH[OF ds] show ?thesis by simp
  next
    case (Some err)
    with b b' show ?thesis by simp
  qed
qed

lemma keys_for_each:
  assumes keep: "\<And>x s. keys (snd (body x s)) = keys s"
  shows "keys (snd (for_each body xs st)) = keys st"
proof (induction xs arbitrary: st)
  case Nil
  then show ?case by simp
next
  case (Cons x xs)
  obtain e s where b: "body x st = (e, s)" by (cases "body x st")
  from keep[of x st] b have k: "keys s = keys st" by simp
  show ?case
  proof (cases e)
    case None
    with b Cons.IH[of s] k show ?thesis by simp
  next
    case (Some err)
    with b k show ?thesis by simp
  qed
qed

lemma fold_py_max_int:
  "fold (\<lambda>item m. py_max m item) (map PyInt xs) (PyInt x) = PyInt (fold max xs x)"
  by (induction xs arbitrary: x) (simp_all add: max.commute)

lemma set_project_duration_of_int:
  "set_project_duration_py (of_int_project st)
     = (fst (set_project_duration st), of_int_project (snd (set_project_duration st)))"
proof (cases "tasks st")
  case Nil
  then show ?thesis by (simp add: set_project_duration_py_def set_project_duration_def)
next
  case (Cons p ps)
  obtain k t where p: "p = (k, t)" by (cases p)
  have m: "map (\<lambda>(k, v). eft v) (map (\<lambda>(k, t). (k, of_int_task t)) ps)
             = map PyInt (map (\<lambda>(k, v). eft v) ps)"
    by (simp add: comp_def case_prod_unfold)
  show ?thesis
    using Cons p
    by (simp add: set_project_duration_py_def set_project_duration_def m fold_py_max_int
        of_int_project_def del: map_map)
qed

lemma calculate_earliest_times_of_int:
  assumes dk: "distinct (keys st)"
  shows "calculate_earliest_times_py (of_int_project st)
           = (fst (calculate_earliest_times st), of_int_project (snd (calculate_earliest_times st)))"
proof -
  obtain order err where ts: "topological_sort (graph st) = (order, err)"
    by (cases "topological_sort (graph st)")
  obtain e s where f: "for_each earliest_step order st = (e, s)"
    by (cases "for_each earliest_step order st")
  from for_each_of_int[of earliest_step_py earliest_step, OF earliest_step_of_int keys_earliest_step dk,
      of order] f
  have f': "for_each earliest_step_py order (of_int_project st) = (e, of_int_project s)"
    by simp
  show ?thesis
    using ts f f' set_project_duration_of_int[of s]
    by (cases e; cases err)
       (simp_all add: calculate_earliest_times_py_def calculate_earliest_times_def and_then_def)
qed

lemma keys_calculate_earliest_times: "keys (snd (calculate_earliest_times st)) = keys st"
proof -
  obtain order err where ts: "topological_sort (graph st) = (order, err)"
    by (cases "topological_sort (graph st)")
  obtain e s where f: "for_each earliest_step order st = (e, s)"
    by (cases "for_each earliest_step order st")
  from keys_for_each[of earliest_step order st, OF keys_earliest_step] f
  have k: "keys s = keys st" by simp
  have "keys (snd (set_project_duration s)) = keys s"
    by (simp add: set_project_duration_def keys_def split: list.splits)
  with ts f k show ?thesis
    by (cases e; cases err) (simp_all add: calculate_earliest_times_def and_then_def)
qed

lemma seed_latest_finish_of_int:
  "seed_latest_finish (of_int_project st) = of_int_project (seed_latest_finish st)"
  by (simp add: seed_latest_finish_def of_int_project_def case_prod_unfold of_int_task_def)

lemma keys_seed_latest_finish [simp]: "keys (seed_latest_finish st) = keys st"
  by (simp add: seed_latest_finish_def keys_def comp_def case_prod_unfold)

lemma min_lst_loop_of_int:
  "min_lst_loop_py (map (\<lambda>(k, t). (k, of_int_task t)) ts) succs (running_minimum m)
     = (case min_lst_loop ts succs m of Inl e \<Rightarrow> Inl e | Inr v \<Rightarrow> Inr (running_minimum v))"
proof (induction succs arbitrary: m)
  case Nil
  then show ?case by simp
next
  case (Cons x xs)
  show ?case
  proof (cases "map_of ts x")
    case None
    then show ?thesis by simp
  next
    case (Some xi)
    let ?m = "case m of None \<Rightarrow> lst xi | Some y \<Rightarrow> min y (lst xi)"
    have pm: "py_min (running_minimum m) (PyInt (lst xi)) = PyInt ?m"
      by (cases m) simp_all
    from Cons.IH[of "Some ?m"]
    have ih: "min_lst_loop_py (map (\<lambda>(k, t). (k, of_int_task t)) ts) xs (PyInt ?m)
                = (case min_lst_loop ts xs (Some ?m) of
                     Inl e \<Rightarrow> Inl e | Inr v \<Rightarrow> Inr (running_minimum v))"
      by simp
    from Some show ?thesis by (simp add: pm ih)
  qed
qed

lemma min_lst_loop_not_infinite:
  "succs \<noteq> [] \<Longrightarrow> min_lst_loop ts succs m \<noteq> Inr None"
proof (induction succs arbitrary: m)
  case Nil
  then show ?case by simp
next
  case (Cons x xs)
  show ?case
  proof (cases "map_of ts x")
    case None
    then show ?thesis by simp
  next
    case (Some xi)
    show ?thesis
    proof (cases "xs = []")
      case True
      with Some show ?thesis by simp
    next
      case False
      from Cons.IH[OF False] Some show ?thesis by simp
    qed
  qed
qed

lemma finish_latest_of_int:
  assumes dk: "distinct (keys st)" and ti: "map_of (tasks st) k = Some ti"
  shows "finish_latest_py k (of_int_task ti) (of_int_project st)
           = (None, of_int_project (finish_latest k st))"
proof -
  have a: "finish_latest k st
             = update_task k (\<lambda>t. t\<lparr>lst := lft ti - duration ti,
                                     float := lft ti - duration ti - est ti\<rparr>) st"
    unfolding finish_latest_eq
    by (rule update_task_cong[OF dk ti]) simp
  have b: "update_task k (\<lambda>t. t\<lparr>float := PyInt (lft ti - duration ti - est ti)\<rparr>)
             (update_task k (\<lambda>t. t\<lparr>lst := PyInt (lft ti - duration ti)\<rparr>) (of_int_project st))
           = of_int_project (update_task k (\<lambda>t. t\<lparr>lst := lft ti - duration ti,
                                     float := lft ti - duration ti - est ti\<rparr>) st)"
    unfolding update_task_twice
    by (rule update_task_of_int) (simp add: of_int_task_def)
  show ?thesis
    by (simp add: finish_latest_py_def a b)
qed

lemma latest_step_of_int:
  assumes dk: "distinct (keys st)"
  shows "latest_step_py k (of_int_project st)
           = (fst (latest_step k st), of_int_project (snd (latest_step k st)))"
proof (cases "map_of (tasks st) k")
  case None
  then show ?thesis by (simp add: latest_step_py_def latest_step_def)
next
  case (Some ti)
  show ?thesis
  proof (cases "successors (graph st) k = []")
    case True
    with Some finish_latest_of_int[OF dk Some] show ?thesis
      by (simp add: latest_step_py_def latest_step_def)
  next
    case False
    from min_lst_loop_of_int[of "tasks st" "successors (graph st) k" None]
    have loop: "min_lst_loop_py (map (\<lambda>(k, t). (k, of_int_task t)) (tasks st))
                  (successors (graph st) k) (PyFloat (Infinity True))
                = (case min_lst_loop (tasks st) (successors (graph st) k) None of
                     Inl e \<Rightarrow> Inl e | Inr v \<Rightarrow> Inr (running_minimum v))"
      by simp
    show ?thesis
    proof (cases "min_lst_loop (tasks st) (successors (graph st) k) None")
      case (Inl e)
      with Some False loop show ?thesis
        by (simp add: latest_step_py_def latest_step_def)
    next
      case (Inr v)
      with min_lst_loop_not_infinite[OF False, of "tasks st" None] obtain m where v: "v = Some m"
        by (cases v) auto
      let ?st1 = "update_task k (\<lambda>t. t\<lparr>lft := m\<rparr>) st"
      have dk1: "distinct (keys ?st1)" using dk by simp
      have ti1: "map_of (tasks ?st1) k = Some (ti\<lparr>lft := m\<rparr>)"
        using Some by (simp add: map_of_update_task)
      have u: "update_task k (\<lambda>t. t\<lparr>lft := PyInt m\<rparr>) (of_int_project st) = of_int_project ?st1"
        by (rule update_task_of_int) (simp add: of_int_task_def)
      have t: "(of_int_task ti)\<lparr>lft := PyInt m\<rparr> = of_int_task (ti\<lparr>lft := m\<rparr>)"
        by (simp add: of_int_task_def)
      from finish_latest_of_int[OF dk1 ti1]
      have "finish_latest_py k ((of_int_task ti)\<lparr>lft := PyInt m\<rparr>)
              (update_task k (\<lambda>t. t\<lparr>lft := PyInt m\<rparr>) (of_int_project st))
            = (None, of_int_project (finish_latest k ?st1))"
        by (simp add: u t)
      with Some False loop Inr v show ?thesis
        by (simp add: latest_step_py_def latest_step_def)
    qed
  qed
qed

lemma keys_latest_step [simp]: "keys (snd (latest_step k st)) = keys st"
  by (simp add: latest_step_def finish_latest_def split: option.splits sum.splits)

lemma calculate_latest_times_of_int:
  assumes dk: "distinct (keys st)"
  shows "calculate_latest_times_py (of_int_project st)
           = (fst (calculate_latest_times st), of_int_project (snd (calculate_latest_times st)))"
proof -
  obtain order err where ts: "topological_sort (graph st) = (order, err)"
    by (cases "topological_sort (graph st)")
  have dk': "distinct (keys (seed_latest_finish st))" using dk by simp
  note f = for_each_of_int[of latest_step_py latest_step, OF latest_step_of_int keys_latest_step dk',
      of "rev order"]
  have g: "graph (of_int_project st) = graph st" by simp
  show ?thesis
    using ts f
    by (cases err)
       (simp_all add: calculate_latest_times_py_def calculate_latest_times_def
          seed_latest_finish_of_int g del: of_int_project_fields)
qed

lemma critical_tasks_of_int: "critical_tasks_py (of_int_project st) = critical_tasks st"
proof -
  have "map fst (filter (\<lambda>(k, t). py_eq (float t) (PyInt 0))
                   (map (\<lambda>(k, t). (k, of_int_task t)) ts))
        = map fst (filter (\<lambda>(k, t). float t = 0) ts)" for ts :: "(string \<times> int task_info) list"
    by (induction ts) auto
  then show ?thesis by (simp add: critical_tasks_py_def critical_tasks_def)
qed

lemma of_int_project_critical_path:
  "(of_int_project st)\<lparr>critical_path := c\<rparr> = of_int_project (st\<lparr>critical_path := c\<rparr>)"
  by (simp add: of_int_project_def)

lemma identify_critical_path_of_int:
  "identify_critical_path_py (of_int_project st) = of_int_project (identify_critical_path st)"
  by (simp add: identify_critical_path_py_def identify_critical_path_def Let_def
      of_int_project_critical_path critical_tasks_of_int del: of_int_project_fields)
     (simp add: of_int_project_critical_path)

text \<open>On a project of integers the analysis over Python numbers is the exact analysis.\<close>

lemma analyze_of_int:
  assumes dk: "distinct (keys st)"
  shows "analyze_py (of_int_project st) = (fst (analyze st), of_int_project (snd (analyze st)))"
proof -
  obtain ok m where v: "fst (validate_tasks st) = (ok, m)" by (cases "fst (validate_tasks st)")
  have vs: "validate_tasks st = ((ok, m), st)"
    using v validate_tasks_state[of st] by (metis prod.collapse)
  have vs': "validate_tasks (of_int_project st) = ((ok, m), of_int_project st)"
    by (simp add: validate_tasks_of_int v)
  show ?thesis
  proof (cases ok)
    case False
    with vs vs' show ?thesis by (simp add: analyze_py_def analyze_def)
  next
    case True
    let ?s1 = "build_graph st"
    have d1: "distinct (keys ?s1)" using dk by (simp add: build_graph_def keys_def)
    obtain e2 s2 where c2: "calculate_earliest_times ?s1 = (e2, s2)"
      by (cases "calculate_earliest_times ?s1")
    from calculate_earliest_times_of_int[OF d1] c2
    have c2': "calculate_earliest_times_py (of_int_project ?s1) = (e2, of_int_project s2)"
      by simp
    from keys_calculate_earliest_times[of ?s1] c2 d1 have d2: "distinct (keys s2)" by simp
    obtain e3 s3 where c3: "calculate_latest_times s2 = (e3, s3)"
      by (cases "calculate_latest_times s2")
    from calculate_latest_times_of_int[OF d2] c3
    have c3': "calculate_latest_times_py (of_int_project s2) = (e3, of_int_project s3)"
      by simp
    show ?thesis
      unfolding analyze_py_def analyze_def vs vs'
      using True c2 c2' c3 c3'
      by (cases e2; cases e3)
         (simp_all add: and_then_def build_graph_of_int identify_critical_path_of_int
            del: of_int_project_fields)
  qed
qed

section \<open>What the passes keep, on any numbers\<close>

text \<open>The passes over Python numbers, whether they finish or raise, change neither the
  identifiers, durations and dependencies nor the graph.\<close>

lemma for_each_keeps:
  assumes "\<And>x s. I (snd (body x s)) = I s"
  shows "I (snd (for_each body xs st)) = I st"
proof (induction xs arbitrary: st)
  case Nil
  then show ?case by simp
next
  case (Cons x xs)
  obtain e s where b: "body x st = (e, s)" by (cases "body x st")
  from assms[of x st] b have k: "I s = I st" by simp
  show ?case
  proof (cases e)
    case None
    with b Cons.IH[of s] k show ?thesis by simp
  next
    case (Some err)
    with b k show ?thesis by simp
  qed
qed

lemma earliest_step_py_keeps:
  "static (snd (earliest_step_py k s)) = static s \<and> graph (snd (earliest_step_py k s)) = graph s"
  by (simp add: earliest_step_py_def static_update_task split: option.splits sum.splits)

lemma set_project_duration_py_keeps:
  "static (snd (set_project_duration_py s)) = static s
   \<and> graph (snd (set_project_duration_py s)) = graph s"
  by (simp add: set_project_duration_py_def static_def split: list.splits)

lemma calculate_earliest_times_py_keeps:
  "static (snd (calculate_earliest_times_py s)) = static s
   \<and> graph (snd (calculate_earliest_times_py s)) = graph s"
proof -
  obtain order err where ts: "topological_sort (graph s) = (order, err)"
    by (cases "topological_sort (graph s)")
  obtain e s1 where f: "for_each earliest_step_py order s = (e, s1)"
    by (cases "for_each earliest_step_py order s")
  from for_each_keeps[of "\<lambda>s. (static s, graph s)" earliest_step_py order s] f
  have k: "static s1 = static s \<and> graph s1 = graph s"
    by (simp add: earliest_step_py_keeps)
  with ts f set_project_duration_py_keeps[of s1] show ?thesis
    by (cases e; cases err) (simp_all add: calculate_earliest_times_py_def and_then_def)
qed

lemma seed_latest_finish_keeps:
  "static (seed_latest_finish s) = static s \<and> graph (seed_latest_finish s) = graph s"
  by (simp add: seed_latest_finish_def static_def case_prod_unfold)

lemma finish_latest_py_keeps:
  "static (snd (finish_latest_py k t s)) = static s \<and> graph (snd (finish_latest_py k t s)) = graph s"
  by (simp add: finish_latest_py_def static_update_task split: sum.splits)

lemma latest_step_py_keeps:
  "static (snd (latest_step_py k s)) = static s \<and> graph (snd (latest_step_py k s)) = graph s"
  by (simp add: latest_step_py_def finish_latest_py_keeps static_update_task
      split: option.splits sum.splits)

lemma calculate_latest_times_py_keeps:
  "static (snd (calculate_latest_times_py s)) = static s
   \<and> graph (snd (calculate_latest_times_py s)) = graph s"
proof -
  obtain order err where ts: "topological_sort (graph s) = (order, err)"
    by (cases "topological_sort (graph s)")
  from for_each_keeps[of "\<lambda>s. (static s, graph s)" latest_step_py "rev order" "seed_latest_finish s"]
  have "static (snd (for_each latest_step_py (rev order) (seed_latest_finish s))) = static s
      \<and> graph (snd (for_each latest_step_py (rev order) (seed_latest_finish s))) = graph s"
    by (simp add: latest_step_py_keeps seed_latest_finish_keeps)
  with ts show ?thesis
    by (cases err) (simp_all add: calculate_latest_times_py_def seed_latest_finish_keeps)
qed

lemma critical_tasks_py_keys:
  assumes dk: "distinct (keys s)"
  shows "set (critical_tasks_py s) = {k \<in> set (keys s). py_eq (float (task_of s k)) (PyInt 0)}"
proof -
  have "(\<exists>t. (k, t) \<in> set (tasks s) \<and> py_eq (float t) (PyInt 0))
      \<longleftrightarrow> k \<in> set (keys s) \<and> py_eq (float (task_of s k)) (PyInt 0)" for k
  proof
    assume "\<exists>t. (k, t) \<in> set (tasks s) \<and> py_eq (float t) (PyInt 0)"
    then obtain t where t: "(k, t) \<in> set (tasks s)" and z: "py_eq (float t) (PyInt 0)" by blast
    from dk have "distinct (map fst (tasks s))" by (simp add: keys_def)
    from this t have "map_of (tasks s) k = Some t" by (rule map_of_is_SomeI)
    then have "task_of s k = t" by (simp add: task_of_def)
    moreover from t have "k \<in> set (keys s)" by (force simp: keys_def)
    ultimately show "k \<in> set (keys s) \<and> py_eq (float (task_of s k)) (PyInt 0)" using z by simp
  next
    assume a: "k \<in> set (keys s) \<and> py_eq (float (task_of s k)) (PyInt 0)"
    then have "map_of (tasks s) k = Some (task_of s k)" by (simp add: map_of_keys)
    then have "(k, task_of s k) \<in> set (tasks s)" by (rule map_of_SomeD)
    with a show "\<exists>t. (k, t) \<in> set (tasks s) \<and> py_eq (float t) (PyInt 0)" by blast
  qed
  moreover have "set (critical_tasks_py s)
      = {k. \<exists>t. (k, t) \<in> set (tasks s) \<and> py_eq (float t) (PyInt 0)}"
    by (force simp: critical_tasks_py_def)
  ultimately show ?thesis by simp
qed

text \<open>A successful \<open>analyze\<close> on any numbers: the project was valid, and the critical path
  holds the tasks whose slack compares equal to 0.\<close>

lemma analyze_py_critical:
  assumes dk: "distinct (keys st)" and an: "analyze_py st = ((True, msg), st')"
  shows "keys st' = keys st"
    and "set (critical_path st') = {T \<in> set (keys st'). py_eq (slack st' T) (PyInt 0)}"
proof -
  obtain ok m where v: "validate_tasks st = ((ok, m), st)"
    using validate_tasks_state[of st] by (metis prod.collapse)
  from an v have ok: "ok" by (cases ok) (simp_all add: analyze_py_def)
  have valid: "all_known (tasks st) \<and> \<not> has_cycle (dependency_graph (tasks st))"
  proof (rule ccontr)
    assume "\<not> (all_known (tasks st) \<and> \<not> has_cycle (dependency_graph (tasks st)))"
    from validate_tasks_fail[OF this] v ok show False by simp
  qed
  let ?s1 = "build_graph st"
  obtain e2 s2 where c2: "calculate_earliest_times_py ?s1 = (e2, s2)"
    by (cases "calculate_earliest_times_py ?s1")
  obtain e3 s3 where c3: "calculate_latest_times_py s2 = (e3, s3)"
    by (cases "calculate_latest_times_py s2")
  from an v ok c2 c3 have st': "st' = identify_critical_path_py s3"
    by (cases e2; cases e3) (simp_all add: analyze_py_def and_then_def)
  have k1: "static ?s1 = static st" "graph ?s1 = dependency_graph (tasks st)"
    by (simp_all add: build_graph_def static_def)
  from calculate_earliest_times_py_keeps[of ?s1] c2 k1
  have k2: "static s2 = static st" "graph s2 = dependency_graph (tasks st)" by simp_all
  from calculate_latest_times_py_keeps[of s2] c3 k2
  have k3: "static s3 = static st" "graph s3 = dependency_graph (tasks st)" by simp_all
  have ks: "keys s3 = keys st" using k3(1) by (rule static_keys)
  have dk3: "distinct (keys s3)" using dk ks by simp
  have ak3: "all_known (tasks s3)" using static_all_known[OF k3(1)] valid by simp
  have dg: "dependency_graph (tasks s3) = dependency_graph (tasks st)"
    using k3(1) by (rule static_dependency_graph)
  have ac3: "\<not> has_cycle (dependency_graph (tasks s3))" using valid dg by simp
  have g3: "graph s3 = dependency_graph (tasks s3)" using k3(2) dg by simp
  let ?ct = "critical_tasks_py s3"
  have ctk: "set ?ct = {k \<in> set (keys s3). py_eq (float (task_of s3 k)) (PyInt 0)}"
    using dk3 by (rule critical_tasks_py_keys)
  then have sub: "set ?ct \<subseteq> set (keys s3)" by blast
  have cp: "critical_path st' =
      (if ?ct = [] then []
       else if filter (\<lambda>t. in_degree (subgraph (graph s3) ?ct) t = 0) ?ct = [] then []
       else bfs (subgraph (graph s3) ?ct)
              (filter (\<lambda>t. in_degree (subgraph (graph s3) ?ct) t = 0) ?ct) {} [])"
    by (simp add: st' identify_critical_path_py_def critical_tasks_py_def Let_def)
  have tk: "tasks st' = tasks s3"
    by (simp add: st' identify_critical_path_py_def Let_def)
  show "keys st' = keys st" using tk ks by (simp add: keys_def)
  have "set (critical_path st') = set ?ct"
    unfolding cp using dk3 ak3 ac3 g3 sub by (rule critical_traversal_set)
  also have "\<dots> = {T \<in> set (keys st'). py_eq (slack st' T) (PyInt 0)}"
    using ctk tk by (simp add: slack_def task_of_def keys_def)
  finally show "set (critical_path st') = {T \<in> set (keys st'). py_eq (slack st' T) (PyInt 0)}" .
qed

section \<open>The run on integers next to floats\<close>

text \<open>The roundings of the run on \<open>mixed_project\<close>: \<open>float(2^53 + 1)\<close> is \<open>2^53\<close> and
  \<open>float(2^53 + 3)\<close> is \<open>2^53 + 4\<close>, and adding or subtracting \<open>0.1\<close> there changes
  nothing.\<close>

lemma large_int_plus_tenth:
  "py_add (PyInt 9007199254740993) (PyFloat (Fin (3602879701896397 / 36028797018963968)))
     = Inr (PyFloat (Fin 9007199254740992))"
proof -
  have 1: "floor_log2 9007199254740993 = 53"
    by (rule floor_log2_eqI) (simp_all add: power_int_def power_divide)
  have 2: "floor_log2 (324518553658426730386035722472653 / 36028797018963968) = 53"
    by (rule floor_log2_eqI) (simp_all add: power_int_def power_divide)
  have c: "to_float (PyInt 9007199254740993) = Inr (Fin 9007199254740992)"
    using 1 by (simp add: to_float_def round64_eval)
  show ?thesis
    using 2 by (simp add: py_add_def c to_float_float round64_eval)
qed

lemma large_int_minus_tenth:
  "py_sub (PyInt 9007199254740995) (PyFloat (Fin (3602879701896397 / 36028797018963968)))
     = Inr (PyFloat (Fin 9007199254740996))"
proof -
  have 1: "floor_log2 9007199254740995 = 53"
    by (rule floor_log2_eqI) (simp_all add: power_int_def power_divide)
  have 2: "floor_log2 (324518553658426867295464394535731 / 36028797018963968) = 53"
    by (rule floor_log2_eqI) (simp_all add: power_int_def power_divide)
  have c: "to_float (PyInt 9007199254740995) = Inr (Fin 9007199254740996)"
    using 1 by (simp add: to_float_def round64_eval)
  show ?thesis
    using 2 by (simp add: py_sub_def float_sub_def c to_float_float round64_eval)
qed

lemma float_minus_large_int:
  "py_sub (PyFloat (Fin 9007199254740996)) (PyInt 9007199254740993) = Inr (PyFloat (Fin 4))"
proof -
  have 1: "floor_log2 9007199254740993 = 53"
    by (rule floor_log2_eqI) (simp_all add: power_int_def power_divide)
  have 2: "floor_log2 4 = 2"
    by (rule floor_log2_eqI) (simp_all add: power_int_def power_divide)
  have c: "to_float (PyInt 9007199254740993) = Inr (Fin 9007199254740992)"
    using 1 by (simp add: to_float_def round64_eval)
  show ?thesis
    using 2 by (simp add: py_sub_def float_sub_def c to_float_float round64_eval)
qed

lemma four_minus_zero:
  "py_sub (PyFloat (Fin 4)) (PyInt 0) = Inr (PyFloat (Fin 4))"
proof -
  have 2: "floor_log2 4 = 2"
    by (rule floor_log2_eqI) (simp_all add: power_int_def power_divide)
  show ?thesis
    using 2 by (simp add: py_sub_def float_sub_def to_float_def round64_zero round64_eval)
qed

lemma mixed_graph_acyclic:
  "\<not> has_cycle \<lparr>nodes = [''A1'', ''A2'', ''B''], edges = [(''A1'', ''B'')]\<rparr>"
  by code_simp

lemma mixed_graph_order:
  "topological_sort \<lparr>nodes = [''A1'', ''A2'', ''B''], edges = [(''A1'', ''B'')]\<rparr>
     = ([''A1'', ''A2'', ''B''], None)"
  by code_simp

lemma mixed_graph:
  "dependency_graph [(''A1'', ta\<lparr>dependencies := []\<rparr>), (''A2'', tc\<lparr>dependencies := []\<rparr>),
                     (''B'', tb\<lparr>dependencies := [''A1'']\<rparr>)]
     = \<lparr>nodes = [''A1'', ''A2'', ''B''], edges = [(''A1'', ''B'')]\<rparr>"
  by (simp add: dependency_graph_def add_task_nodes_def add_dependency_edges_def add_node_def
        add_edge_def DiGraph_def Let_def)

lemma mixed_project_tasks:
  "mixed_project =
     \<lparr>tasks =
        [(''A1'', \<lparr>duration = PyInt 9007199254740993, dependencies = [], est = PyInt 0,
                  eft = PyInt 0, lst = PyInt 0, lft = PyInt 0, float = PyInt 0\<rparr>),
         (''A2'', \<lparr>duration = PyInt 9007199254740995, dependencies = [], est = PyInt 0,
                  eft = PyInt 0, lst = PyInt 0, lft = PyInt 0, float = PyInt 0\<rparr>),
         (''B'', \<lparr>duration = PyFloat (Fin (3602879701896397 / 36028797018963968)),
                 dependencies = [''A1''], est = PyInt 0, eft = PyInt 0, lst = PyInt 0,
                 lft = PyInt 0, float = PyInt 0\<rparr>)],
      graph = DiGraph, critical_path = [], project_duration = PyInt 0\<rparr>"
  by (simp add: mixed_project_def add_task_py_def init_py_def round64_tenth)

lemma mixed_project_graph:
  "dependency_graph (tasks mixed_project)
     = \<lparr>nodes = [''A1'', ''A2'', ''B''], edges = [(''A1'', ''B'')]\<rparr>"
  using mixed_graph[of "\<lparr>duration = PyInt 9007199254740993, dependencies = [], est = PyInt 0,
                eft = PyInt 0, lst = PyInt 0, lft = PyInt 0, float = PyInt 0\<rparr>"
       "\<lparr>duration = PyInt 9007199254740995, dependencies = [], est = PyInt 0,
                eft = PyInt 0, lst = PyInt 0, lft = PyInt 0, float = PyInt 0\<rparr>"
       "\<lparr>duration = PyFloat (Fin (3602879701896397 / 36028797018963968)),
               dependencies = [''A1''], est = PyInt 0, eft = PyInt 0, lst = PyInt 0,
               lft = PyInt 0, float = PyInt 0\<rparr>"]
  by (simp add: mixed_project_tasks)

lemma mixed_project_valid:
  "validate_tasks mixed_project = ((True, []), mixed_project)"
  unfolding validate_tasks_def mixed_project_graph
  by (simp add: mixed_graph_acyclic) (simp add: mixed_project_tasks)

lemma mixed_run:
  "analyze_py mixed_project =
     ((True, []),
      \<lparr>tasks =
        [(''A1'', \<lparr>duration = PyInt 9007199254740993, dependencies = [], est = PyInt 0,
                  eft = PyInt 9007199254740993, lst = PyFloat (Fin 4),
                  lft = PyFloat (Fin 9007199254740996), float = PyFloat (Fin 4)\<rparr>),
         (''A2'', \<lparr>duration = PyInt 9007199254740995, dependencies = [], est = PyInt 0,
                  eft = PyInt 9007199254740995, lst = PyInt 0,
                  lft = PyInt 9007199254740995, float = PyInt 0\<rparr>),
         (''B'', \<lparr>duration = PyFloat (Fin (3602879701896397 / 36028797018963968)),
                 dependencies = [''A1''], est = PyInt 9007199254740993,
                 eft = PyFloat (Fin 9007199254740992),
                 lst = PyFloat (Fin 9007199254740996),
                 lft = PyInt 9007199254740995, float = PyFloat (Fin 4)\<rparr>)],
      graph = \<lparr>nodes = [''A1'', ''A2'', ''B''], edges = [(''A1'', ''B'')]\<rparr>,
      critical_path = [''A2''], project_duration = PyInt 9007199254740995\<rparr>)"
proof -
  note g = mixed_project_graph and v = mixed_project_valid
  have sg: "subgraph \<lparr>nodes = [''A1'', ''A2'', ''B''], edges = [(''A1'', ''B'')]\<rparr> [''A2'']
              = \<lparr>nodes = [''A2''], edges = []\<rparr>"
    by (simp add: subgraph_def)
  have b: "bfs \<lparr>nodes = [''A2''], edges = []\<rparr> [''A2''] {} [] = [''A2'']"
    by (simp add: successors_def)
  show ?thesis
    unfolding analyze_py_def v
    apply (simp add: and_then_def build_graph_def g)
    apply (simp add: mixed_project_tasks calculate_earliest_times_py_def mixed_graph_order
        and_then_def earliest_step_py_def update_task_def set_project_duration_py_def
        large_int_plus_tenth py_max_def py_lt_def exact_value_def
        calculate_latest_times_py_def seed_latest_finish_def latest_step_py_def successors_def
        finish_latest_py_def py_min_def large_int_minus_tenth float_minus_large_int
        four_minus_zero identify_critical_path_py_def critical_tasks_py_def py_eq_def
        Let_def sg b in_degree_def predecessors_def)
    done
qed

section \<open>Failure and slack on Python numbers\<close>

text \<open>
  Claim C5, as stated, fails.  Task A has the \<open>int\<close> duration \<open>10**400\<close>, task B the \<open>float\<close>
  duration \<open>0.5\<close> and depends on A.  The project is valid; the forward pass assigns the
  earliest finish of A and the earliest start of B, then \<open>B.est + B.duration\<close> raises
  \<open>OverflowError\<close>, and \<open>analyze\<close> returns failure with both fields changed.
\<close>

theorem overflow_failure_counterexample:
  "fst (validate_tasks overflow_project) = (True, [])
   \<and> fst (analyze_py overflow_project) = (False, ''int too large to convert to float'')
   \<and> earliest_finish overflow_project ''A'' = PyInt 0
   \<and> earliest_finish (snd (analyze_py overflow_project)) ''A'' = PyInt (10 ^ 400)
   \<and> earliest_start overflow_project ''B'' = PyInt 0
   \<and> earliest_start (snd (analyze_py overflow_project)) ''B'' = PyInt (10 ^ 400)"
proof -
  note run = overflow_run[OF refl, folded overflow_project_def]
  have before: "tasks overflow_project =
     [(''A'', \<lparr>duration = PyInt (10 ^ 400), dependencies = [], est = PyInt 0, eft = PyInt 0,
               lst = PyInt 0, lft = PyInt 0, float = PyInt 0\<rparr>),
      (''B'', \<lparr>duration = PyFloat (Fin (1 / 2)), dependencies = [''A''], est = PyInt 0,
               eft = PyInt 0, lst = PyInt 0, lft = PyInt 0, float = PyInt 0\<rparr>)]"
    by (simp add: overflow_project_def add_task_py_def init_py_def round64_half)
  have g: "dependency_graph (tasks overflow_project)
             = \<lparr>nodes = [''A'', ''B''], edges = [(''A'', ''B'')]\<rparr>"
    unfolding before
    using chain_graph[of "\<lparr>duration = PyInt (10 ^ 400), dependencies = [], est = PyInt 0,
               eft = PyInt 0, lst = PyInt 0, lft = PyInt 0, float = PyInt 0\<rparr>"
             "\<lparr>duration = PyFloat (Fin (1 / 2)), dependencies = [''A''], est = PyInt 0,
               eft = PyInt 0, lst = PyInt 0, lft = PyInt 0, float = PyInt 0\<rparr>"]
    by simp
  have v: "fst (validate_tasks overflow_project) = (True, [])"
    unfolding validate_tasks_def g
    by (simp add: chain_graph_acyclic) (simp add: before)
  have b: "earliest_finish overflow_project ''A'' = PyInt 0"
    "earliest_start overflow_project ''B'' = PyInt 0"
    by (simp_all add: earliest_finish_def earliest_start_def task_of_def before)
  have a: "earliest_finish (snd (analyze_py overflow_project)) ''A'' = PyInt (10 ^ 400)"
    "earliest_start (snd (analyze_py overflow_project)) ''B'' = PyInt (10 ^ 400)"
    by (simp_all add: run earliest_finish_def earliest_start_def task_of_def)
  from v run b a show ?thesis by simp
qed

text \<open>
  Claim C5, amended.  Whenever \<open>analyze\<close> returns failure because \<open>validate_tasks\<close> returned
  \<open>False\<close> (an unknown dependency or a cycle), the whole state, and with it every computed
  field (the timings and slack of every task, the project duration and the critical path),
  is the state before the call.  On an object built through the interface with \<open>int\<close>
  numbers only, every failure of \<open>analyze\<close> is of this kind, so there too the state is the
  state before the call.
\<close>

theorem analyze_validation_failure_keeps_state:
  assumes fail: "analyze_py st = ((False, msg), st')"
    and cause: "fst (fst (validate_tasks st)) = False
                  \<or> (\<exists>st0. reachable st0 \<and> st = of_int_project st0)"
  shows "st' = st"
  using cause
proof
  assume "fst (fst (validate_tasks st)) = False"
  moreover have "snd (validate_tasks st) = st" by (rule validate_tasks_state)
  ultimately obtain m where "validate_tasks st = ((False, m), st)"
    by (metis prod.collapse)
  with fail show ?thesis by (simp add: analyze_py_def)
next
  assume "\<exists>st0. reachable st0 \<and> st = of_int_project st0"
  then obtain st0 :: "int PERTDiagram" where r: "reachable st0" and st: "st = of_int_project st0"
    by blast
  from r have "distinct (keys st0)" by (rule reachable_distinct)
  then have "analyze_py st = (fst (analyze st0), of_int_project (snd (analyze st0)))"
    unfolding st by (rule analyze_of_int)
  with fail have f: "fst (analyze st0) = (False, msg)"
    and s: "st' = of_int_project (snd (analyze st0))"
    by simp_all
  from f have "analyze st0 = ((False, msg), snd (analyze st0))" by (metis prod.collapse)
  with r have "snd (analyze st0) = st0" by (rule analyze_exact_failure)
  with s st show ?thesis by simp
qed

theorem analyze_validation_failure_keeps_state_witness:
  "fst (analyze_py (of_int_project cyclic_project))
     = (False, ''Circular dependency detected in the project'')
   \<and> snd (analyze_py (of_int_project cyclic_project)) = of_int_project cyclic_project"
proof -
  have r: "reachable cyclic_project"
    unfolding cyclic_project_def by (intro reachable.intros)
  have f: "fst (analyze_py (of_int_project cyclic_project))
             = (False, ''Circular dependency detected in the project'')"
    unfolding cyclic_project_def by code_simp
  then have a: "analyze_py (of_int_project cyclic_project)
      = ((False, ''Circular dependency detected in the project''),
         snd (analyze_py (of_int_project cyclic_project)))"
    by (metis prod.collapse)
  have v: "fst (fst (validate_tasks (of_int_project cyclic_project))) = False"
    unfolding cyclic_project_def by code_simp
  from r have c: "fst (fst (validate_tasks (of_int_project cyclic_project))) = False
        \<or> (\<exists>st0. reachable st0 \<and> of_int_project cyclic_project = of_int_project st0)"
    using v by blast
  from analyze_validation_failure_keeps_state[OF a c] f show ?thesis by simp
qed

text \<open>
  Claim C6, as stated, fails where the arithmetic rounds.  With the \<open>float\<close> durations that
  \<open>app.py\<close> passes (\<open>float(duration_str)\<close>): task A has duration \<open>0.1\<close>, task B has duration
  \<open>0.4\<close> and depends on A.  The project is valid and \<open>analyze\<close> succeeds with project
  duration \<open>0.5\<close>; the latest start of B is \<open>0.5 - 0.4\<close>, which rounds to the \<open>float\<close> just
  below \<open>0.1\<close>, so both tasks get the slack \<open>-2^(-55)\<close>, and the critical path is empty.
  With \<open>int\<close> durations above \<open>2^53\<close> next to a \<open>float\<close> duration (\<open>mixed_project\<close>) the
  earliest finish of B is below its earliest start and its latest finish is below its
  latest start.
\<close>

theorem rounding_counterexample:
  "fst (validate_tasks rounding_project) = (True, [])
   \<and> fst (analyze_py rounding_project) = (True, [])
   \<and> slack (snd (analyze_py rounding_project)) ''A'' = PyFloat (Fin (- (1 / 2 ^ 55)))
   \<and> slack (snd (analyze_py rounding_project)) ''B'' = PyFloat (Fin (- (1 / 2 ^ 55)))
   \<and> py_lt (slack (snd (analyze_py rounding_project)) ''B'') (PyInt 0)
   \<and> critical_path (snd (analyze_py rounding_project)) = []
   \<and> fst (validate_tasks mixed_project) = (True, [])
   \<and> fst (analyze_py mixed_project) = (True, [])
   \<and> earliest_start (snd (analyze_py mixed_project)) ''B'' = PyInt (2 ^ 53 + 1)
   \<and> earliest_finish (snd (analyze_py mixed_project)) ''B'' = PyFloat (Fin (2 ^ 53))
   \<and> py_lt (earliest_finish (snd (analyze_py mixed_project)) ''B'')
           (earliest_start (snd (analyze_py mixed_project)) ''B'')
   \<and> latest_start (snd (analyze_py mixed_project)) ''B'' = PyFloat (Fin (2 ^ 53 + 4))
   \<and> latest_finish (snd (analyze_py mixed_project)) ''B'' = PyInt (2 ^ 53 + 3)
   \<and> py_lt (latest_finish (snd (analyze_py mixed_project)) ''B'')
           (latest_start (snd (analyze_py mixed_project)) ''B'')"
proof -
  have s: "slack (snd (analyze_py rounding_project)) ''A'' = PyFloat (Fin (- (1 / 2 ^ 55)))"
    "slack (snd (analyze_py rounding_project)) ''B'' = PyFloat (Fin (- (1 / 2 ^ 55)))"
    by (simp_all add: rounding_run slack_def task_of_def)
  have n: "py_lt (PyFloat (Fin (- (1 / 2 ^ 55)))) (PyInt 0)"
    by (simp add: py_lt_def exact_value_def)
  have e: "earliest_start (snd (analyze_py mixed_project)) ''B'' = PyInt (2 ^ 53 + 1)"
    "earliest_finish (snd (analyze_py mixed_project)) ''B'' = PyFloat (Fin (2 ^ 53))"
    "latest_start (snd (analyze_py mixed_project)) ''B'' = PyFloat (Fin (2 ^ 53 + 4))"
    "latest_finish (snd (analyze_py mixed_project)) ''B'' = PyInt (2 ^ 53 + 3)"
    by (simp_all add: mixed_run earliest_start_def earliest_finish_def latest_start_def
        latest_finish_def task_of_def)
  have m: "py_lt (PyFloat (Fin (2 ^ 53))) (PyInt (2 ^ 53 + 1))"
    "py_lt (PyInt (2 ^ 53 + 3)) (PyFloat (Fin (2 ^ 53 + 4)))"
    by (simp_all add: py_lt_def exact_value_def)
  have r: "fst (analyze_py rounding_project) = (True, [])"
    "critical_path (snd (analyze_py rounding_project)) = []"
    "fst (analyze_py mixed_project) = (True, [])"
    by (simp_all add: rounding_run mixed_run)
  have v: "fst (validate_tasks rounding_project) = (True, [])"
    "fst (validate_tasks mixed_project) = (True, [])"
    by (simp_all add: rounding_project_valid mixed_project_valid)
  show ?thesis
    unfolding s e
    using v r n m by (intro conjI) simp_all
qed

text \<open>
  Claim C6, amended.  Let \<open>self.tasks\<close> be a dictionary (distinct keys) of tasks with any
  Python numbers, and let \<open>analyze\<close> succeed, which it only does on a valid project.  Then a
  task is on the critical path exactly when its slack equals 0 under \<open>==\<close>.  If moreover the
  object was built through the interface with \<open>int\<close> numbers only and positive durations, so
  that the arithmetic is exact, then every task has its earliest finish at or after its
  earliest start, its latest finish at or after its latest start, and slack at least 0.
\<close>

theorem slack_and_criticality_amended:
  assumes dk: "distinct (keys st)" and an: "analyze_py st = ((True, msg), st')"
  shows "\<forall>T \<in> set (keys st').
           (T \<in> set (critical_path st') \<longleftrightarrow> py_eq (slack st' T) (PyInt 0)) \<and>
           ((\<exists>st0. reachable st0 \<and> (\<forall>(k, t) \<in> set (tasks st0). 0 < duration t)
                    \<and> st = of_int_project st0) \<longrightarrow>
              py_le (earliest_start st' T) (earliest_finish st' T) \<and>
              py_le (latest_start st' T) (latest_finish st' T) \<and>
              py_le (PyInt 0) (slack st' T))"
proof
  fix T
  assume T': "T \<in> set (keys st')"
  from analyze_py_critical(2)[OF dk an] T'
  have crit: "T \<in> set (critical_path st') \<longleftrightarrow> py_eq (slack st' T) (PyInt 0)"
    by simp
  have exact: "py_le (earliest_start st' T) (earliest_finish st' T) \<and>
               py_le (latest_start st' T) (latest_finish st' T) \<and>
               py_le (PyInt 0) (slack st' T)"
    if ex: "\<exists>st0. reachable st0 \<and> (\<forall>(k, t) \<in> set (tasks st0). 0 < duration t)
                   \<and> st = of_int_project st0"
  proof -
    from ex obtain st0 :: "int PERTDiagram" where r: "reachable st0"
      and pos: "\<forall>(k, t) \<in> set (tasks st0). 0 < duration t" and st: "st = of_int_project st0"
      by blast
    from r have "distinct (keys st0)" by (rule reachable_distinct)
    then have "analyze_py (of_int_project st0)
                 = (fst (analyze st0), of_int_project (snd (analyze st0)))"
      by (rule analyze_of_int)
    with an st have f: "fst (analyze st0) = (True, msg)"
      and s: "st' = of_int_project (snd (analyze st0))"
      by simp_all
    define s1 where "s1 = snd (analyze st0)"
    from f have a: "analyze st0 = ((True, msg), s1)" unfolding s1_def by (metis prod.collapse)
    from s have st': "st' = of_int_project s1" by (simp add: s1_def)
    from T' have T1: "T \<in> set (keys s1)" by (simp add: st')
    from analyze_success(1)[OF r a] have static: "static s1 = static st0"
      by (simp add: analysed_def)
    from static have ks: "keys s1 = keys st0" by (rule static_keys)
    from T1 ks have T0: "T \<in> set (keys st0)" by simp
    then have "map_of (tasks st0) T = Some (task_of st0 T)" by (rule map_of_keys)
    then have "(T, task_of st0 T) \<in> set (tasks st0)" by (rule map_of_SomeD)
    with pos have "0 < duration (task_of st0 T)" by auto
    with static_task(1)[OF static, of T] have d: "0 \<le> duration_of s1 T"
      by (simp add: duration_of_def)
    note e = slack_exact[OF r a]
    from bspec[OF conjunct1[OF e] T1] d
    have 1: "0 \<le> slack s1 T" and 2: "earliest_start s1 T \<le> earliest_finish s1 T"
      and 3: "latest_start s1 T \<le> latest_finish s1 T"
      by simp_all
    from 1 2 3 show ?thesis
      unfolding st'
      by (simp add: earliest_start_def earliest_finish_def latest_start_def latest_finish_def
          slack_def task_of_of_int_project[OF T1])
  qed
  from crit exact show
    "(T \<in> set (critical_path st') \<longleftrightarrow> py_eq (slack st' T) (PyInt 0)) \<and>
     ((\<exists>st0. reachable st0 \<and> (\<forall>(k, t) \<in> set (tasks st0). 0 < duration t)
              \<and> st = of_int_project st0) \<longrightarrow>
        py_le (earliest_start st' T) (earliest_finish st' T) \<and>
        py_le (latest_start st' T) (latest_finish st' T) \<and>
        py_le (PyInt 0) (slack st' T))"
    by blast
qed

theorem slack_and_criticality_amended_witness:
  "''B'' \<in> set (critical_path (snd (analyze_py (of_int_project chain_project))))
   \<and> slack (snd (analyze_py (of_int_project chain_project))) ''B'' = PyInt 0
   \<and> py_le (earliest_start (snd (analyze_py (of_int_project chain_project))) ''B'')
           (earliest_finish (snd (analyze_py (of_int_project chain_project))) ''B'')
   \<and> py_le (latest_start (snd (analyze_py (of_int_project chain_project))) ''B'')
           (latest_finish (snd (analyze_py (of_int_project chain_project))) ''B'')
   \<and> py_le (PyInt 0) (slack (snd (analyze_py (of_int_project chain_project))) ''B'')"
proof -
  have r: "reachable chain_project"
    unfolding chain_project_def by (intro reachable.intros)
  have p: "\<forall>(k, t) \<in> set (tasks chain_project). 0 < duration t"
    by (simp add: chain_project_def add_task_def init_def)
  from r p have ex: "\<exists>st0. reachable st0 \<and> (\<forall>(k, t) \<in> set (tasks st0). 0 < duration t)
                       \<and> of_int_project chain_project = of_int_project st0"
    by blast
  have dk: "distinct (keys (of_int_project chain_project))"
    using reachable_distinct[OF r] by simp
  have "fst (analyze_py (of_int_project chain_project)) = (True, [])"
    unfolding chain_project_def by code_simp
  then have a: "analyze_py (of_int_project chain_project)
                  = ((True, []), snd (analyze_py (of_int_project chain_project)))"
    by (metis prod.collapse)
  have k: "keys (snd (analyze_py (of_int_project chain_project))) = [''A'', ''B'']"
    unfolding chain_project_def keys_def by code_simp
  have z: "slack (snd (analyze_py (of_int_project chain_project))) ''B'' = PyInt 0"
    unfolding chain_project_def slack_def task_of_def by code_simp
  have inB: "''B'' \<in> set (keys (snd (analyze_py (of_int_project chain_project))))"
    by (simp add: k)
  note t = bspec[OF slack_and_criticality_amended[OF dk a] inB]
  from conjunct1[OF t] z
  have c: "''B'' \<in> set (critical_path (snd (analyze_py (of_int_project chain_project))))"
    by simp
  from mp[OF conjunct2[OF t] ex] c z show ?thesis by simp
qed

section \<open>The task registry\<close>

text \<open>
  Claim C9.  \<open>add_task\<close> has no failing branch: for any identifier, duration and dependency
  list it returns the state whose dictionary maps the identifier to the new entry and every
  other key to what it had before.  An identifier already present keeps its position, a new
  one is appended; the graph, the critical path and the project duration are not touched.
\<close>

theorem add_task_replaces:
  "map_of (tasks (add_task task_id dur deps st)) =
     (map_of (tasks st))(task_id \<mapsto>
        \<lparr>duration = dur, dependencies = (case deps of None \<Rightarrow> [] | Some ds \<Rightarrow> ds),
         est = 0, eft = 0, lst = 0, lft = 0, float = 0\<rparr>)
   \<and> map fst (tasks (add_task task_id dur deps st)) =
       (if task_id \<in> set (map fst (tasks st)) then map fst (tasks st)
        else map fst (tasks st) @ [task_id])
   \<and> graph (add_task task_id dur deps st) = graph st
   \<and> critical_path (add_task task_id dur deps st) = critical_path st
   \<and> project_duration (add_task task_id dur deps st) = project_duration st"
  by (simp add: add_task_def AList.update_conv' AList.update_keys)

text \<open>
  Claim C10.  After \<open>add_task\<close> the entry of the identifier has earliest start, earliest
  finish, latest start, latest finish and slack all equal to 0, whatever the entry held
  before the call.
\<close>

theorem add_task_resets_timings:
  "\<exists>task_info. map_of (tasks (add_task task_id dur deps st)) task_id = Some task_info
      \<and> est task_info = 0 \<and> eft task_info = 0 \<and> lst task_info = 0
      \<and> lft task_info = 0 \<and> float task_info = 0"
  by (simp add: add_task_def AList.update_conv')

section \<open>The empty project\<close>

text \<open>
  Claim C8.  On the freshly constructed object \<open>analyze\<close> returns success with the empty
  message, the project duration is 0 and the critical path is empty.
\<close>

theorem analyze_empty_project:
  "fst (analyze (init :: 'a::linordered_ab_group_add PERTDiagram)) = (True, [])
   \<and> project_duration (snd (analyze (init :: 'a PERTDiagram))) = 0
   \<and> critical_path (snd (analyze (init :: 'a PERTDiagram))) = []"
  by (simp add: analyze_def validate_tasks_def init_def dependency_graph_def add_task_nodes_def
      add_dependency_edges_def DiGraph_def has_cycle_def and_then_def build_graph_def
      calculate_earliest_times_def topological_sort_def topological_generations_def
      set_project_duration_def calculate_latest_times_def seed_latest_finish_def
      identify_critical_path_def critical_tasks_def)

end
